theory Spec2Isabelle
  imports Main "HOL-Library.Monad_Syntax" "HOL-Library.Stream"
begin

section \<open>Board model\<close>

text \<open>
  Modelled from the spec: the header \<^verbatim>\<open>board.h\<close> (the \<^verbatim>\<open>Cell\<close> enumeration and the
  macros \<^verbatim>\<open>WIN_COUNT\<close> and \<^verbatim>\<open>BOARD_FULL\<close>) is not among the sources. The spec gives the
  cell states \<^verbatim>\<open>Empty | Player1 | Player2\<close>, four in a row for a win, and 42 pieces for
  a full board. \<^verbatim>\<open>ROWS\<close> and \<^verbatim>\<open>COLS\<close> are the macros of the board module.
\<close>

datatype Cell = cell_empty | cell_player1 | cell_player2

definition ROWS :: int where "ROWS = 6"
definition COLS :: int where "COLS = 7"
definition WIN_COUNT :: int where "WIN_COUNT = 4"
definition BOARD_FULL :: int where "BOARD_FULL = 42"

text \<open>
  The global \<^verbatim>\<open>Cell board[ROWS][COLS]\<close> is a store from (row, column) to cells. Only the
  addresses of the 6 by 7 grid exist in the program: an access whose index comes from a
  parameter goes through \<open>cell_at\<close> or \<open>set_cell\<close>, which fail with \<open>None\<close>
  outside the grid. Loops whose indices are counters between literal bounds inside the
  grid read the store directly.
\<close>

type_synonym board = "int \<Rightarrow> int \<Rightarrow> Cell"

record GameMove =
  row :: int
  column :: int

definition in_grid :: "int \<Rightarrow> int \<Rightarrow> bool" where
  "in_grid r c \<longleftrightarrow> 0 \<le> r \<and> r < ROWS \<and> 0 \<le> c \<and> c < COLS"

definition cell_at :: "board \<Rightarrow> int \<Rightarrow> int \<Rightarrow> Cell option" where
  "cell_at b r c = (if in_grid r c then Some (b r c) else None)"

definition place :: "board \<Rightarrow> int \<Rightarrow> int \<Rightarrow> Cell \<Rightarrow> board" where
  "place b r c v = b(r := (b r)(c := v))"

definition set_cell :: "board \<Rightarrow> int \<Rightarrow> int \<Rightarrow> Cell \<Rightarrow> board option" where
  "set_cell b r c v = (if in_grid r c then Some (place b r c v) else None)"

definition board_init :: board where
  "board_init = (\<lambda>r c. cell_empty)"

text \<open>
  The idiom \<^verbatim>\<open>for (r = ROWS - 1; r >= 0; r--) if (board[r][col] == cell_empty) { ...; break; }\<close>
  occurs in every routine that drops a piece. Its search part is \<open>first_empty_from\<close>;
  the body runs on the row found and leaves the loop.
\<close>

function first_empty_from :: "board \<Rightarrow> int \<Rightarrow> int \<Rightarrow> int option" where
  "first_empty_from b col r =
     (if r \<ge> 0 then
        (if b r col = cell_empty then Some r else first_empty_from b col (r - 1))
      else None)"
  by pat_completeness auto
termination
  by (relation "measure (\<lambda>(b, col, r). nat (r + 1))") auto

declare first_empty_from.simps [simp del]

definition lowest_empty :: "board \<Rightarrow> int \<Rightarrow> int option" where
  "lowest_empty b col = first_empty_from b col (ROWS - 1)"

section \<open>Simulated moves\<close>

definition make_move :: "board \<Rightarrow> int \<Rightarrow> Cell \<Rightarrow> (int \<times> board) option" where
  "make_move b col player =
     (if 0 \<le> col \<and> col < COLS then
        (case lowest_empty b col of
           Some r \<Rightarrow> Some (r, place b r col player)
         | None \<Rightarrow> Some (-1, b))
      else None)"

definition undo_move :: "board \<Rightarrow> int \<Rightarrow> int \<Rightarrow> board option" where
  "undo_move b r col = set_cell b r col cell_empty"

section \<open>Win detection\<close>

text \<open>
  The game module is present in two revisions. The later one (whose comments document the
  counting in both directions without a reset) is modelled under the source's names; the
  earlier one carries the suffix \<open>_rev1\<close>. Each \<^verbatim>\<open>while\<close> loop is one recursive
  function: the bound of the next cell is tested first, the cell is read only then.
\<close>

function vertical_down :: "board \<Rightarrow> Cell \<Rightarrow> int \<Rightarrow> int \<Rightarrow> int \<Rightarrow> int option" where
  "vertical_down b player temp_row temp_col count =
     (if temp_row + 1 < ROWS then
        (case cell_at b (temp_row + 1) temp_col of
           None \<Rightarrow> None
         | Some v \<Rightarrow>
             if v = player
             then vertical_down b player (temp_row + 1) temp_col (count + 1)
             else Some count)
      else Some count)"
  by pat_completeness auto
termination
  by (relation "measure (\<lambda>(b, player, temp_row, temp_col, count). nat (ROWS - temp_row))") auto

declare vertical_down.simps [simp del]

function vertical_up :: "board \<Rightarrow> Cell \<Rightarrow> int \<Rightarrow> int \<Rightarrow> int \<Rightarrow> int option" where
  "vertical_up b player temp_row temp_col count =
     (if temp_row - 1 \<ge> 0 then
        (case cell_at b (temp_row - 1) temp_col of
           None \<Rightarrow> None
         | Some v \<Rightarrow>
             if v = player
             then vertical_up b player (temp_row - 1) temp_col (count + 1)
             else Some count)
      else Some count)"
  by pat_completeness auto
termination
  by (relation "measure (\<lambda>(b, player, temp_row, temp_col, count). nat temp_row)") auto

declare vertical_up.simps [simp del]

function horizontal_right :: "board \<Rightarrow> Cell \<Rightarrow> int \<Rightarrow> int \<Rightarrow> int \<Rightarrow> int option" where
  "horizontal_right b player temp_row temp_col count =
     (if temp_col + 1 < COLS then
        (case cell_at b temp_row (temp_col + 1) of
           None \<Rightarrow> None
         | Some v \<Rightarrow>
             if v = player
             then horizontal_right b player temp_row (temp_col + 1) (count + 1)
             else Some count)
      else Some count)"
  by pat_completeness auto
termination
  by (relation "measure (\<lambda>(b, player, temp_row, temp_col, count). nat (COLS - temp_col))") auto

declare horizontal_right.simps [simp del]

function horizontal_left :: "board \<Rightarrow> Cell \<Rightarrow> int \<Rightarrow> int \<Rightarrow> int \<Rightarrow> int option" where
  "horizontal_left b player temp_row temp_col count =
     (if temp_col - 1 \<ge> 0 then
        (case cell_at b temp_row (temp_col - 1) of
           None \<Rightarrow> None
         | Some v \<Rightarrow>
             if v = player
             then horizontal_left b player temp_row (temp_col - 1) (count + 1)
             else Some count)
      else Some count)"
  by pat_completeness auto
termination
  by (relation "measure (\<lambda>(b, player, temp_row, temp_col, count). nat temp_col)") auto

declare horizontal_left.simps [simp del]

function diagonal_up_right :: "board \<Rightarrow> Cell \<Rightarrow> int \<Rightarrow> int \<Rightarrow> int \<Rightarrow> int option" where
  "diagonal_up_right b player temp_row temp_col count =
     (if temp_row - 1 \<ge> 0 \<and> temp_col + 1 < COLS then
        (case cell_at b (temp_row - 1) (temp_col + 1) of
           None \<Rightarrow> None
         | Some v \<Rightarrow>
             if v = player
             then diagonal_up_right b player (temp_row - 1) (temp_col + 1) (count + 1)
             else Some count)
      else Some count)"
  by pat_completeness auto
termination
  by (relation "measure (\<lambda>(b, player, temp_row, temp_col, count). nat temp_row)") auto

declare diagonal_up_right.simps [simp del]

function diagonal_down_left :: "board \<Rightarrow> Cell \<Rightarrow> int \<Rightarrow> int \<Rightarrow> int \<Rightarrow> int option" where
  "diagonal_down_left b player temp_row temp_col count =
     (if temp_row + 1 < ROWS \<and> temp_col - 1 \<ge> 0 then
        (case cell_at b (temp_row + 1) (temp_col - 1) of
           None \<Rightarrow> None
         | Some v \<Rightarrow>
             if v = player
             then diagonal_down_left b player (temp_row + 1) (temp_col - 1) (count + 1)
             else Some count)
      else Some count)"
  by pat_completeness auto
termination
  by (relation "measure (\<lambda>(b, player, temp_row, temp_col, count). nat temp_col)") auto

declare diagonal_down_left.simps [simp del]

function diagonal_up_left :: "board \<Rightarrow> Cell \<Rightarrow> int \<Rightarrow> int \<Rightarrow> int \<Rightarrow> int option" where
  "diagonal_up_left b player temp_row temp_col count =
     (if temp_row - 1 \<ge> 0 \<and> temp_col - 1 \<ge> 0 then
        (case cell_at b (temp_row - 1) (temp_col - 1) of
           None \<Rightarrow> None
         | Some v \<Rightarrow>
             if v = player
             then diagonal_up_left b player (temp_row - 1) (temp_col - 1) (count + 1)
             else Some count)
      else Some count)"
  by pat_completeness auto
termination
  by (relation "measure (\<lambda>(b, player, temp_row, temp_col, count). nat temp_row)") auto

declare diagonal_up_left.simps [simp del]

function diagonal_down_right :: "board \<Rightarrow> Cell \<Rightarrow> int \<Rightarrow> int \<Rightarrow> int \<Rightarrow> int option" where
  "diagonal_down_right b player temp_row temp_col count =
     (if temp_row + 1 < ROWS \<and> temp_col + 1 < COLS then
        (case cell_at b (temp_row + 1) (temp_col + 1) of
           None \<Rightarrow> None
         | Some v \<Rightarrow>
             if v = player
             then diagonal_down_right b player (temp_row + 1) (temp_col + 1) (count + 1)
             else Some count)
      else Some count)"
  by pat_completeness auto
termination
  by (relation "measure (\<lambda>(b, player, temp_row, temp_col, count). nat (ROWS - temp_row))") auto

declare diagonal_down_right.simps [simp del]

definition check_vertical :: "board \<Rightarrow> GameMove \<Rightarrow> Cell \<Rightarrow> bool option" where
  "check_vertical b last_move player = do {
     count \<leftarrow> vertical_down b player (row last_move) (column last_move) 1;
     count \<leftarrow> vertical_up b player (row last_move) (column last_move) count;
     Some (count \<ge> WIN_COUNT)
   }"

definition check_horizontal :: "board \<Rightarrow> GameMove \<Rightarrow> Cell \<Rightarrow> bool option" where
  "check_horizontal b last_move player = do {
     count \<leftarrow> horizontal_right b player (row last_move) (column last_move) 1;
     count \<leftarrow> horizontal_left b player (row last_move) (column last_move) count;
     Some (count \<ge> WIN_COUNT)
   }"

definition check_diagonal :: "board \<Rightarrow> GameMove \<Rightarrow> Cell \<Rightarrow> bool option" where
  "check_diagonal b last_move player = do {
     count \<leftarrow> diagonal_up_right b player (row last_move) (column last_move) 1;
     count \<leftarrow> diagonal_down_left b player (row last_move) (column last_move) count;
     if count \<ge> WIN_COUNT then Some True
     else do {
       count \<leftarrow> diagonal_up_left b player (row last_move) (column last_move) 1;
       count \<leftarrow> diagonal_down_right b player (row last_move) (column last_move) count;
       Some (count \<ge> WIN_COUNT)
     }
   }"

definition check_winner :: "board \<Rightarrow> GameMove \<Rightarrow> Cell \<Rightarrow> bool option" where
  "check_winner b last_move player = do {
     v \<leftarrow> check_vertical b last_move player;
     if v then Some True
     else do {
       h \<leftarrow> check_horizontal b last_move player;
       if h then Some True
       else do {
         d \<leftarrow> check_diagonal b last_move player;
         if d then Some True else Some False
       }
     }
   }"

subsection \<open>The earlier revision\<close>

text \<open>
  Every loop of the earlier revision also stops at \<^verbatim>\<open>count < WIN_COUNT\<close>, and the count
  restarts at 1 before the opposite direction is walked.
\<close>

function vertical_down_rev1 :: "board \<Rightarrow> Cell \<Rightarrow> int \<Rightarrow> int \<Rightarrow> int \<Rightarrow> int option" where
  "vertical_down_rev1 b player temp_row temp_col count =
     (if temp_row + 1 < ROWS then
        (case cell_at b (temp_row + 1) temp_col of
           None \<Rightarrow> None
         | Some v \<Rightarrow>
             if v = player \<and> count < WIN_COUNT
             then vertical_down_rev1 b player (temp_row + 1) temp_col (count + 1)
             else Some count)
      else Some count)"
  by pat_completeness auto
termination
  by (relation "measure (\<lambda>(b, player, temp_row, temp_col, count). nat (ROWS - temp_row))") auto

declare vertical_down_rev1.simps [simp del]

function vertical_up_rev1 :: "board \<Rightarrow> Cell \<Rightarrow> int \<Rightarrow> int \<Rightarrow> int \<Rightarrow> int option" where
  "vertical_up_rev1 b player temp_row temp_col count =
     (if temp_row - 1 \<ge> 0 then
        (case cell_at b (temp_row - 1) temp_col of
           None \<Rightarrow> None
         | Some v \<Rightarrow>
             if v = player \<and> count < WIN_COUNT
             then vertical_up_rev1 b player (temp_row - 1) temp_col (count + 1)
             else Some count)
      else Some count)"
  by pat_completeness auto
termination
  by (relation "measure (\<lambda>(b, player, temp_row, temp_col, count). nat temp_row)") auto

declare vertical_up_rev1.simps [simp del]

function horizontal_right_rev1 :: "board \<Rightarrow> Cell \<Rightarrow> int \<Rightarrow> int \<Rightarrow> int \<Rightarrow> int option" where
  "horizontal_right_rev1 b player temp_row temp_col count =
     (if temp_col + 1 < COLS then
        (case cell_at b temp_row (temp_col + 1) of
           None \<Rightarrow> None
         | Some v \<Rightarrow>
             if v = player \<and> count < WIN_COUNT
             then horizontal_right_rev1 b player temp_row (temp_col + 1) (count + 1)
             else Some count)
      else Some count)"
  by pat_completeness auto
termination
  by (relation "measure (\<lambda>(b, player, temp_row, temp_col, count). nat (COLS - temp_col))") auto

declare horizontal_right_rev1.simps [simp del]

function horizontal_left_rev1 :: "board \<Rightarrow> Cell \<Rightarrow> int \<Rightarrow> int \<Rightarrow> int \<Rightarrow> int option" where
  "horizontal_left_rev1 b player temp_row temp_col count =
     (if temp_col - 1 \<ge> 0 then
        (case cell_at b temp_row (temp_col - 1) of
           None \<Rightarrow> None
         | Some v \<Rightarrow>
             if v = player \<and> count < WIN_COUNT
             then horizontal_left_rev1 b player temp_row (temp_col - 1) (count + 1)
             else Some count)
      else Some count)"
  by pat_completeness auto
termination
  by (relation "measure (\<lambda>(b, player, temp_row, temp_col, count). nat temp_col)") auto

declare horizontal_left_rev1.simps [simp del]

function diagonal_up_right_rev1 :: "board \<Rightarrow> Cell \<Rightarrow> int \<Rightarrow> int \<Rightarrow> int \<Rightarrow> int option" where
  "diagonal_up_right_rev1 b player temp_row temp_col count =
     (if temp_row - 1 \<ge> 0 \<and> temp_col + 1 < COLS then
        (case cell_at b (temp_row - 1) (temp_col + 1) of
           None \<Rightarrow> None
         | Some v \<Rightarrow>
             if v = player \<and> count < WIN_COUNT
             then diagonal_up_right_rev1 b player (temp_row - 1) (temp_col + 1) (count + 1)
             else Some count)
      else Some count)"
  by pat_completeness auto
termination
  by (relation "measure (\<lambda>(b, player, temp_row, temp_col, count). nat temp_row)") auto

declare diagonal_up_right_rev1.simps [simp del]

function diagonal_down_left_rev1 :: "board \<Rightarrow> Cell \<Rightarrow> int \<Rightarrow> int \<Rightarrow> int \<Rightarrow> int option" where
  "diagonal_down_left_rev1 b player temp_row temp_col count =
     (if temp_row + 1 < ROWS \<and> temp_col - 1 \<ge> 0 then
        (case cell_at b (temp_row + 1) (temp_col - 1) of
           None \<Rightarrow> None
         | Some v \<Rightarrow>
             if v = player \<and> count < WIN_COUNT
             then diagonal_down_left_rev1 b player (temp_row + 1) (temp_col - 1) (count + 1)
             else Some count)
      else Some count)"
  by pat_completeness auto
termination
  by (relation "measure (\<lambda>(b, player, temp_row, temp_col, count). nat temp_col)") auto

declare diagonal_down_left_rev1.simps [simp del]

function diagonal_up_left_rev1 :: "board \<Rightarrow> Cell \<Rightarrow> int \<Rightarrow> int \<Rightarrow> int \<Rightarrow> int option" where
  "diagonal_up_left_rev1 b player temp_row temp_col count =
     (if temp_row - 1 \<ge> 0 \<and> temp_col - 1 \<ge> 0 then
        (case cell_at b (temp_row - 1) (temp_col - 1) of
           None \<Rightarrow> None
         | Some v \<Rightarrow>
             if v = player \<and> count < WIN_COUNT
             then diagonal_up_left_rev1 b player (temp_row - 1) (temp_col - 1) (count + 1)
             else Some count)
      else Some count)"
  by pat_completeness auto
termination
  by (relation "measure (\<lambda>(b, player, temp_row, temp_col, count). nat temp_row)") auto

declare diagonal_up_left_rev1.simps [simp del]

function diagonal_down_right_rev1 :: "board \<Rightarrow> Cell \<Rightarrow> int \<Rightarrow> int \<Rightarrow> int \<Rightarrow> int option" where
  "diagonal_down_right_rev1 b player temp_row temp_col count =
     (if temp_row + 1 < ROWS \<and> temp_col + 1 < COLS then
        (case cell_at b (temp_row + 1) (temp_col + 1) of
           None \<Rightarrow> None
         | Some v \<Rightarrow>
             if v = player \<and> count < WIN_COUNT
             then diagonal_down_right_rev1 b player (temp_row + 1) (temp_col + 1) (count + 1)
             else Some count)
      else Some count)"
  by pat_completeness auto
termination
  by (relation "measure (\<lambda>(b, player, temp_row, temp_col, count). nat (ROWS - temp_row))") auto

declare diagonal_down_right_rev1.simps [simp del]

definition check_vertical_rev1 :: "board \<Rightarrow> GameMove \<Rightarrow> Cell \<Rightarrow> bool option" where
  "check_vertical_rev1 b last_move player = do {
     count \<leftarrow> vertical_down_rev1 b player (row last_move) (column last_move) 1;
     if count = WIN_COUNT then Some True
     else do {
       count \<leftarrow> vertical_up_rev1 b player (row last_move) (column last_move) 1;
       Some (count = WIN_COUNT)
     }
   }"

definition check_horizontal_rev1 :: "board \<Rightarrow> GameMove \<Rightarrow> Cell \<Rightarrow> bool option" where
  "check_horizontal_rev1 b last_move player = do {
     count \<leftarrow> horizontal_right_rev1 b player (row last_move) (column last_move) 1;
     if count = WIN_COUNT then Some True
     else do {
       count \<leftarrow> horizontal_left_rev1 b player (row last_move) (column last_move) 1;
       Some (count = WIN_COUNT)
     }
   }"

definition check_diagonal_rev1 :: "board \<Rightarrow> GameMove \<Rightarrow> Cell \<Rightarrow> bool option" where
  "check_diagonal_rev1 b last_move player = do {
     count \<leftarrow> diagonal_down_right_rev1 b player (row last_move) (column last_move) 1;
     if count = WIN_COUNT then Some True
     else do {
       count \<leftarrow> diagonal_up_left_rev1 b player (row last_move) (column last_move) 1;
       if count = WIN_COUNT then Some True
       else do {
         count \<leftarrow> diagonal_down_left_rev1 b player (row last_move) (column last_move) 1;
         if count = WIN_COUNT then Some True
         else do {
           count \<leftarrow> diagonal_up_right_rev1 b player (row last_move) (column last_move) 1;
           Some (count = WIN_COUNT)
         }
       }
     }
   }"

definition check_winner_rev1 :: "board \<Rightarrow> GameMove \<Rightarrow> Cell \<Rightarrow> bool option" where
  "check_winner_rev1 b last_move player = do {
     v \<leftarrow> check_vertical_rev1 b last_move player;
     if v then Some True
     else do {
       h \<leftarrow> check_horizontal_rev1 b last_move player;
       if h then Some True
       else do {
         d \<leftarrow> check_diagonal_rev1 b last_move player;
         if d then Some True else Some False
       }
     }
   }"

subsection \<open>Four in a row, as the specification words it\<close>

text \<open>
  A cell holds a player's piece when it lies on the grid and stores that player. An axis
  through a cell carries four in a row when some window of four consecutive cells along
  the axis contains the cell and every cell of the window holds the player's piece.
\<close>

definition holds :: "board \<Rightarrow> Cell \<Rightarrow> int \<Rightarrow> int \<Rightarrow> bool" where
  "holds b p r c \<longleftrightarrow> in_grid r c \<and> b r c = p"

definition four_on_axis :: "board \<Rightarrow> Cell \<Rightarrow> int \<Rightarrow> int \<Rightarrow> int \<Rightarrow> int \<Rightarrow> bool" where
  "four_on_axis b p r c dr dc \<longleftrightarrow>
     (\<exists>j\<in>{0..3}. \<forall>i\<in>{0..3}. holds b p (r + (i - j) * dr) (c + (i - j) * dc))"

definition four_through :: "board \<Rightarrow> Cell \<Rightarrow> int \<Rightarrow> int \<Rightarrow> bool" where
  "four_through b p r c \<longleftrightarrow>
     four_on_axis b p r c 1 0 \<or> four_on_axis b p r c 0 1 \<or>
     four_on_axis b p r c (-1) 1 \<or> four_on_axis b p r c 1 1"

text \<open>
  The extension of the run from a cell in one direction: the cells 1 to \<open>k\<close> steps away
  hold the player's piece and the cell \<open>k + 1\<close> steps away does not.
\<close>

definition run_ext :: "board \<Rightarrow> Cell \<Rightarrow> int \<Rightarrow> int \<Rightarrow> int \<Rightarrow> int \<Rightarrow> int \<Rightarrow> bool" where
  "run_ext b p r c dr dc k \<longleftrightarrow>
     0 \<le> k \<and> (\<forall>i. 1 \<le> i \<and> i \<le> k \<longrightarrow> holds b p (r + i * dr) (c + i * dc)) \<and>
     \<not> holds b p (r + (k + 1) * dr) (c + (k + 1) * dc)"

section \<open>Position evaluation\<close>

text \<open>
  The body shared by the four window loops of \<^verbatim>\<open>evaluate_position\<close>: the three counters
  over the four cells of a window, then the two \<^verbatim>\<open>if\<close> chains that update the score.
\<close>

definition count_window :: "Cell \<Rightarrow> Cell \<Rightarrow> Cell list \<Rightarrow> int \<times> int \<times> int" where
  "count_window player opponent cells =
     fold (\<lambda>v (player_count, opponent_count, empty_count).
             if v = player then (player_count + 1, opponent_count, empty_count)
             else if v = opponent then (player_count, opponent_count + 1, empty_count)
             else (player_count, opponent_count, empty_count + 1))
          cells (0, 0, 0)"

definition score_window :: "Cell \<Rightarrow> Cell \<Rightarrow> Cell list \<Rightarrow> int \<Rightarrow> int" where
  "score_window player opponent cells score =
     (case count_window player opponent cells of
        (player_count, opponent_count, empty_count) \<Rightarrow>
          let score = (if player_count = 4 then score + 100
                       else if player_count = 3 \<and> empty_count = 1 then score + 5
                       else if player_count = 2 \<and> empty_count = 2 then score + 2
                       else score)
          in (if opponent_count = 4 then score - 100
              else if opponent_count = 3 \<and> empty_count = 1 then score - 4
              else score))"

definition evaluate_position :: "board \<Rightarrow> Cell \<Rightarrow> int" where
  "evaluate_position b player =
     (let opponent = (if player = cell_player1 then cell_player2 else cell_player1);
          score = 0;
          score = fold (\<lambda>r. fold (\<lambda>c. score_window player opponent
                          (map (\<lambda>i. b r (c + i)) [0..3])) [0..COLS - 4]) [0..ROWS - 1] score;
          score = fold (\<lambda>c. fold (\<lambda>r. score_window player opponent
                          (map (\<lambda>i. b (r + i) c) [0..3])) [0..ROWS - 4]) [0..COLS - 1] score;
          score = fold (\<lambda>r. fold (\<lambda>c. score_window player opponent
                          (map (\<lambda>i. b (r + i) (c + i)) [0..3])) [0..COLS - 4]) [0..ROWS - 4] score;
          score = fold (\<lambda>r. fold (\<lambda>c. score_window player opponent
                          (map (\<lambda>i. b (r - i) (c + i)) [0..3])) [0..COLS - 4]) [3..ROWS - 1] score;
          score = fold (\<lambda>r score. if b r 3 = player then score + 3 else score) [0..ROWS - 1] score
      in score)"

subsection \<open>The evaluation, as the specification words it\<close>

text \<open>
  A window is four consecutive cells along one of the four axes; it fits when its first
  and its last cell lie on the grid. The value of a window follows the table of the
  specification; the score adds the values of all windows and 3 for each of the player's
  pieces in column 3.
\<close>

definition window_cells :: "int \<Rightarrow> int \<Rightarrow> int \<times> int \<Rightarrow> (int \<times> int) list" where
  "window_cells r c d = map (\<lambda>i. (r + i * fst d, c + i * snd d)) [0..3]"

definition all_windows :: "(int \<times> int) list list" where
  "all_windows =
     concat (map (\<lambda>d. concat (map (\<lambda>r. concat (map (\<lambda>c.
        if in_grid r c \<and> in_grid (r + 3 * fst d) (c + 3 * snd d) then [window_cells r c d] else [])
        [0..COLS - 1])) [0..ROWS - 1])) [(0, 1), (1, 0), (1, 1), (-1, 1)])"

definition pieces_in :: "board \<Rightarrow> Cell \<Rightarrow> (int \<times> int) list \<Rightarrow> int" where
  "pieces_in b v w = int (length (filter (\<lambda>(r, c). b r c = v) w))"

definition window_value :: "board \<Rightarrow> Cell \<Rightarrow> (int \<times> int) list \<Rightarrow> int" where
  "window_value b player w =
     (let opponent = (if player = cell_player1 then cell_player2 else cell_player1);
          mine = pieces_in b player w;
          theirs = pieces_in b opponent w;
          empties = pieces_in b cell_empty w
      in if mine = 4 then 100
         else if mine = 3 \<and> empties = 1 then 5
         else if mine = 2 \<and> empties = 2 then 2
         else if theirs = 4 then - 100
         else if theirs = 3 \<and> empties = 1 then - 4
         else 0)"

definition evaluate_spec :: "board \<Rightarrow> Cell \<Rightarrow> int" where
  "evaluate_spec b player =
     sum_list (map (window_value b player) all_windows)
     + 3 * pieces_in b player (map (\<lambda>r. (r, 3)) [0..ROWS - 1])"

section \<open>Heuristic routines of the computer player\<close>

text \<open>
  The routines simulate a placement on the shared board and undo it; the model threads
  the board through them and returns it with the result. \<open>find_winning_move_from\<close> is
  the column loop of \<^verbatim>\<open>find_winning_move\<close>, entered at column 0.
\<close>

function find_winning_move_from :: "Cell \<Rightarrow> int \<Rightarrow> board \<Rightarrow> (GameMove \<times> board) option" where
  "find_winning_move_from player col b =
     (if col < COLS then
        (case first_empty_from b col (ROWS - 1) of
           Some r \<Rightarrow>
             (let b1 = place b r col player;
                  test_move = \<lparr>row = r, column = col\<rparr>
              in case check_winner b1 test_move player of
                   None \<Rightarrow> None
                 | Some w \<Rightarrow>
                     if w then Some (test_move, place b1 r col cell_empty)
                     else find_winning_move_from player (col + 1) (place b1 r col cell_empty))
         | None \<Rightarrow> find_winning_move_from player (col + 1) b)
      else Some (\<lparr>row = -1, column = -1\<rparr>, b))"
  by pat_completeness auto
termination
  by (relation "measure (\<lambda>(player, col, b). nat (COLS - col))") auto

declare find_winning_move_from.simps [simp del]

definition find_winning_move :: "Cell \<Rightarrow> board \<Rightarrow> (GameMove \<times> board) option" where
  "find_winning_move player b = find_winning_move_from player 0 b"

definition count_threats :: "board \<Rightarrow> int \<Rightarrow> int \<Rightarrow> Cell \<Rightarrow> (int \<times> board) option" where
  "count_threats b r col player = do {
     b \<leftarrow> set_cell b r col player;
     let threats = 0;
     count \<leftarrow> horizontal_right b player r col 1;
     count \<leftarrow> horizontal_left b player r col count;
     let threats = (if count \<ge> 2 then threats + count else threats);
     count \<leftarrow> vertical_down b player r col 1;
     count \<leftarrow> vertical_up b player r col count;
     let threats = (if count \<ge> 2 then threats + count else threats);
     b \<leftarrow> set_cell b r col cell_empty;
     Some (threats, b)
   }"

function find_best_strategic_move_from ::
  "Cell \<Rightarrow> int \<Rightarrow> int \<Rightarrow> GameMove \<Rightarrow> board \<Rightarrow> (GameMove \<times> board) option" where
  "find_best_strategic_move_from player col best_score best_move b =
     (if col < COLS then
        (case first_empty_from b col (ROWS - 1) of
           Some r \<Rightarrow>
             (case count_threats b r col player of
                None \<Rightarrow> None
              | Some (score, b) \<Rightarrow>
                  let score = (if col = 3 then score + 3
                               else if col = 2 \<or> col = 4 then score + 2
                               else if col = 1 \<or> col = 5 then score + 1
                               else score)
                  in if score > best_score
                     then find_best_strategic_move_from player (col + 1) score
                            \<lparr>row = r, column = col\<rparr> b
                     else find_best_strategic_move_from player (col + 1) best_score best_move b)
         | None \<Rightarrow> find_best_strategic_move_from player (col + 1) best_score best_move b)
      else Some (best_move, b))"
  by pat_completeness auto
termination
  by (relation "measure (\<lambda>(player, col, best_score, best_move, b). nat (COLS - col))") auto

declare find_best_strategic_move_from.simps [simp del]

definition find_best_strategic_move :: "Cell \<Rightarrow> board \<Rightarrow> (GameMove \<times> board) option" where
  "find_best_strategic_move player b =
     find_best_strategic_move_from player 0 (-1) \<lparr>row = -1, column = -1\<rparr> b"

section \<open>Easy and medium computer players\<close>

text \<open>
  \<^verbatim>\<open>rand()\<close> is the C library's; the model takes its successive results (non-negative
  integers) as a stream and returns the rest of the stream. \<^verbatim>\<open>ai_easy_move\<close> calls itself
  while the drawn column is full, so it is a partial function: \<open>None\<close> is the call that
  never returns.
\<close>

partial_function (option) ai_easy_move :: "nat stream \<Rightarrow> board \<Rightarrow> (GameMove \<times> nat stream) option" where
  "ai_easy_move rng b =
     (let col = int (shd rng) mod 7;
          rng = stl rng
      in case first_empty_from b col 5 of
           None \<Rightarrow> ai_easy_move rng b
         | Some r \<Rightarrow> Some (\<lparr>row = r, column = col\<rparr>, rng))"

fun shuffle :: "nat list \<Rightarrow> int list \<Rightarrow> nat stream \<Rightarrow> int list \<times> nat stream" where
  "shuffle [] center_preference rng = (center_preference, rng)"
| "shuffle (i # is) center_preference rng =
     (let j = shd rng mod 7;
          temp = center_preference ! i;
          center_preference = center_preference[i := center_preference ! j];
          center_preference = center_preference[j := temp]
      in shuffle is center_preference (stl rng))"

fun first_valid_column :: "board \<Rightarrow> int list \<Rightarrow> GameMove option" where
  "first_valid_column b [] = None"
| "first_valid_column b (col # cols) =
     (case first_empty_from b col (ROWS - 1) of
        Some r \<Rightarrow> Some \<lparr>row = r, column = col\<rparr>
      | None \<Rightarrow> first_valid_column b cols)"

definition ai_medium_move :: "nat stream \<Rightarrow> board \<Rightarrow> (GameMove \<times> nat stream \<times> board) option" where
  "ai_medium_move rng b = do {
     (winning_move, b) \<leftarrow> find_winning_move cell_player2 b;
     if row winning_move \<noteq> -1 then Some (winning_move, rng, b)
     else do {
       (blocking_move, b) \<leftarrow> find_winning_move cell_player1 b;
       if row blocking_move \<noteq> -1 then Some (blocking_move, rng, b)
       else do {
         (strategic_move, b) \<leftarrow> find_best_strategic_move cell_player2 b;
         if row strategic_move \<noteq> -1 \<and> shd rng mod 100 < 70
         then Some (strategic_move, stl rng, b)
         else do {
           let rng = (if row strategic_move \<noteq> -1 then stl rng else rng);
           let (center_preference, rng) = shuffle [0..<7] [3, 2, 4, 1, 5, 0, 6] rng;
           case first_valid_column b center_preference of
             Some move \<Rightarrow> Some (move, rng, b)
           | None \<Rightarrow> do {
               (move, rng) \<leftarrow> ai_easy_move rng b;
               Some (move, rng, b)
             }
         }
       }
     }
   }"

section \<open>Hard computer player: minimax with alpha-beta pruning\<close>

text \<open>
  \<^verbatim>\<open>INT_MIN\<close> and \<^verbatim>\<open>INT_MAX\<close> are those of a 32-bit \<^verbatim>\<open>int\<close>. Scores stay far inside
  that range (\<open>evaluate_position_bounds\<close> below), so the model computes with unbounded
  integers. The two \<^verbatim>\<open>for\<close> loops of \<^verbatim>\<open>minimax\<close> are \<open>max_loop\<close> and \<open>min_loop\<close>; they
  take the recursive call as a parameter. \<^verbatim>\<open>minimax\<close> is a partial function: that it always
  returns is a theorem (\<open>minimax_restores\<close>), not a part of the definition.
\<close>

definition INT_MIN :: int where "INT_MIN = - 2147483648"
definition INT_MAX :: int where "INT_MAX = 2147483647"

fun winner_among :: "board \<Rightarrow> (int \<times> int) list \<Rightarrow> bool option" where
  "winner_among b [] = Some False"
| "winner_among b ((r, c) # cells) =
     (if b r c \<noteq> cell_empty then
        (case check_winner b \<lparr>row = r, column = c\<rparr> (b r c) of
           None \<Rightarrow> None
         | Some w \<Rightarrow> if w then Some True else winner_among b cells)
      else winner_among b cells)"

definition is_game_over :: "board \<Rightarrow> bool option" where
  "is_game_over b =
     (case winner_among b (concat (map (\<lambda>r. map (\<lambda>c. (r, c)) [0..COLS - 1]) [0..ROWS - 1])) of
        None \<Rightarrow> None
      | Some w \<Rightarrow>
          if w then Some True
          else Some (list_all (\<lambda>c. b 0 c \<noteq> cell_empty) [0..COLS - 1]))"

text \<open>\<^verbatim>\<open>get_valid_moves\<close> fills \<^verbatim>\<open>valid_cols\<close> and \<^verbatim>\<open>count\<close>: the list and its length.\<close>

definition get_valid_moves :: "board \<Rightarrow> int list" where
  "get_valid_moves b = filter (\<lambda>c. b 0 c = cell_empty) [0..COLS - 1]"

fun max_loop ::
  "(int \<Rightarrow> int \<Rightarrow> board \<Rightarrow> (int \<times> board) option) \<Rightarrow> Cell \<Rightarrow> int list \<Rightarrow>
     int \<Rightarrow> int \<Rightarrow> int \<Rightarrow> board \<Rightarrow> (int \<times> board) option" where
  "max_loop recurse player [] alpha beta max_eval b = Some (max_eval, b)"
| "max_loop recurse player (col # cols) alpha beta max_eval b = do {
     (r, b) \<leftarrow> make_move b col player;
     (eval, b) \<leftarrow> recurse alpha beta b;
     b \<leftarrow> undo_move b r col;
     let max_eval = (if eval > max_eval then eval else max_eval);
     let alpha = (if alpha > eval then alpha else eval);
     if beta \<le> alpha then Some (max_eval, b)
     else max_loop recurse player cols alpha beta max_eval b
   }"

fun min_loop ::
  "(int \<Rightarrow> int \<Rightarrow> board \<Rightarrow> (int \<times> board) option) \<Rightarrow> Cell \<Rightarrow> int list \<Rightarrow>
     int \<Rightarrow> int \<Rightarrow> int \<Rightarrow> board \<Rightarrow> (int \<times> board) option" where
  "min_loop recurse opponent [] alpha beta min_eval b = Some (min_eval, b)"
| "min_loop recurse opponent (col # cols) alpha beta min_eval b = do {
     (r, b) \<leftarrow> make_move b col opponent;
     (eval, b) \<leftarrow> recurse alpha beta b;
     b \<leftarrow> undo_move b r col;
     let min_eval = (if eval < min_eval then eval else min_eval);
     let beta = (if beta < eval then beta else eval);
     if beta \<le> alpha then Some (min_eval, b)
     else min_loop recurse opponent cols alpha beta min_eval b
   }"

lemma max_loop_mono [partial_function_mono]:
  assumes "\<And>alpha beta b. mono_option (\<lambda>f. recurse f alpha beta b)"
  shows "mono_option (\<lambda>f. max_loop (recurse f) player cols alpha beta max_eval b)"
  using assms
proof (induction cols arbitrary: alpha beta max_eval b)
  case Nil
  show ?case by (simp add: option.const_mono)
next
  case (Cons col cols)
  show ?case
    unfolding max_loop.simps split_beta Let_def
    by (intro partial_function_mono Cons.prems Cons.IH)
qed

lemma min_loop_mono [partial_function_mono]:
  assumes "\<And>alpha beta b. mono_option (\<lambda>f. recurse f alpha beta b)"
  shows "mono_option (\<lambda>f. min_loop (recurse f) opponent cols alpha beta min_eval b)"
  using assms
proof (induction cols arbitrary: alpha beta min_eval b)
  case Nil
  show ?case by (simp add: option.const_mono)
next
  case (Cons col cols)
  show ?case
    unfolding min_loop.simps split_beta Let_def
    by (intro partial_function_mono Cons.prems Cons.IH)
qed

partial_function (option) minimax ::
  "int \<Rightarrow> int \<Rightarrow> int \<Rightarrow> bool \<Rightarrow> Cell \<Rightarrow> board \<Rightarrow> (int \<times> board) option" where
  "minimax depth alpha beta maximizing player b =
     (let opponent = (if player = cell_player1 then cell_player2 else cell_player1) in
      if depth = 0 then Some (evaluate_position b player, b)
      else do {
        over \<leftarrow> is_game_over b;
        if over then Some (evaluate_position b player, b)
        else
          let valid_cols = get_valid_moves b in
          if length valid_cols = 0 then Some (0, b)
          else if maximizing then
            max_loop (\<lambda>alpha beta b. minimax (depth - 1) alpha beta False player b)
              player valid_cols alpha beta INT_MIN b
          else
            min_loop (\<lambda>alpha beta b. minimax (depth - 1) alpha beta True player b)
              opponent valid_cols alpha beta INT_MAX b
      })"

declare minimax.simps [code]

declare ai_easy_move.simps [code]

definition SEARCH_DEPTH :: int where "SEARCH_DEPTH = 5"

fun hard_search :: "int list \<Rightarrow> int \<Rightarrow> int \<Rightarrow> board \<Rightarrow> (int \<times> board) option" where
  "hard_search [] best_score best_col b = Some (best_col, b)"
| "hard_search (col # cols) best_score best_col b = do {
     (r, b) \<leftarrow> make_move b col cell_player2;
     (score, b) \<leftarrow> minimax (SEARCH_DEPTH - 1) INT_MIN INT_MAX False cell_player2 b;
     b \<leftarrow> undo_move b r col;
     if score > best_score then hard_search cols score col b
     else hard_search cols best_score best_col b
   }"

definition ai_hard_move :: "nat stream \<Rightarrow> board \<Rightarrow> (GameMove \<times> nat stream \<times> board) option" where
  "ai_hard_move rng b = do {
     (winning_move, b) \<leftarrow> find_winning_move cell_player2 b;
     if row winning_move \<noteq> -1 then Some (winning_move, rng, b)
     else do {
       (blocking_move, b) \<leftarrow> find_winning_move cell_player1 b;
       if row blocking_move \<noteq> -1 then Some (blocking_move, rng, b)
       else do {
         (best_col, b) \<leftarrow> hard_search (get_valid_moves b) INT_MIN 3 b;
         case first_empty_from b best_col (ROWS - 1) of
           Some r \<Rightarrow> Some (\<lparr>row = r, column = best_col\<rparr>, rng, b)
         | None \<Rightarrow> do {
             (move, rng) \<leftarrow> ai_easy_move rng b;
             Some (move, rng, b)
           }
       }
     }
   }"

section \<open>Notions used to state the properties of the search routines\<close>

text \<open>
  Dropping a piece: the board after a piece of \<open>p\<close> has fallen to the lowest Empty row of
  a column. A drop completes four in a row when the dropped piece lies on an axis that
  then carries four in a row.
\<close>

definition grid_cells :: "(int \<times> int) list" where
  "grid_cells = concat (map (\<lambda>r. map (\<lambda>c. (r, c)) [0..COLS - 1]) [0..ROWS - 1])"

definition empties :: "board \<Rightarrow> nat" where
  "empties b = length (filter (\<lambda>(r, c). b r c = cell_empty) grid_cells)"

definition drop_piece :: "board \<Rightarrow> int \<Rightarrow> Cell \<Rightarrow> board" where
  "drop_piece b col p = (case lowest_empty b col of Some r \<Rightarrow> place b r col p | None \<Rightarrow> b)"

definition completes_four :: "board \<Rightarrow> Cell \<Rightarrow> int \<Rightarrow> bool" where
  "completes_four b p col \<longleftrightarrow>
     (case lowest_empty b col of
        Some r \<Rightarrow> four_through (place b r col p) p r col
      | None \<Rightarrow> False)"

definition winning_move_post :: "board \<Rightarrow> Cell \<Rightarrow> int \<Rightarrow> GameMove \<Rightarrow> bool" where
  "winning_move_post b p col m \<longleftrightarrow>
     (if row m = -1
      then column m = -1 \<and> (\<forall>c. col \<le> c \<and> c < COLS \<longrightarrow> \<not> completes_four b p c)
      else col \<le> column m \<and> column m < COLS \<and>
           lowest_empty b (column m) = Some (row m) \<and>
           completes_four b p (column m) \<and>
           (\<forall>c. col \<le> c \<and> c < column m \<longrightarrow> \<not> completes_four b p c))"

text \<open>
  What \<^verbatim>\<open>find_best_strategic_move\<close> returns when its column loop is entered at \<open>col\<close>
  with the running best score and move: the lowest Empty cell of a column, or the running
  best move.
\<close>

definition strategic_post :: "board \<Rightarrow> int \<Rightarrow> int \<Rightarrow> GameMove \<Rightarrow> GameMove \<Rightarrow> bool" where
  "strategic_post b col best_score best_move m \<longleftrightarrow>
     (col \<le> column m \<and> column m < COLS \<and> lowest_empty b (column m) = Some (row m)) \<or>
     (m = best_move \<and>
        (0 \<le> best_score \<or> (\<forall>c. col \<le> c \<and> c < COLS \<longrightarrow> lowest_empty b c = None)))"

text \<open>
  The column named by the \<open>k\<close>-th result of \<^verbatim>\<open>rand()\<close>, and what it means that
  \<^verbatim>\<open>ai_easy_move\<close> returned \<open>y\<close> at its \<open>k\<close>-th draw (counted from 0): the earlier draws
  named full columns, this one names a column whose lowest Empty row is the move's.
\<close>

definition drawn_column :: "nat stream \<Rightarrow> nat \<Rightarrow> int" where
  "drawn_column rng k = int (rng !! k) mod 7"

definition returned_after :: "board \<Rightarrow> nat stream \<Rightarrow> GameMove \<times> nat stream \<Rightarrow> nat \<Rightarrow> bool" where
  "returned_after b rng y k \<longleftrightarrow>
     (\<forall>i<k. lowest_empty b (drawn_column rng i) = None) \<and>
     lowest_empty b (drawn_column rng k) = Some (row (fst y)) \<and>
     column (fst y) = drawn_column rng k \<and> snd y = sdrop (Suc k) rng"

section \<open>Exhaustive minimax, as the specification words it\<close>

text \<open>
  The search of the specification without the cutoff: a position is finished when a win
  exists anywhere on the board or the top row is full; a maximizing node takes the
  largest value of its children, a minimizing node the smallest, over all valid columns.
  The exhaustive choice is the first valid column, in ascending order, whose value is the
  largest; 3 when no column is valid, as \<^verbatim>\<open>ai_hard_move\<close> defaults. \<open>ai_hard_move_exhaustive\<close>
  is \<^verbatim>\<open>ai_hard_move\<close> with that choice in the place of the pruned search.
\<close>

definition finished :: "board \<Rightarrow> bool" where
  "finished b \<longleftrightarrow>
     list_ex (\<lambda>(r, c). b r c \<noteq> cell_empty \<and> four_through b (b r c) r c) grid_cells \<or>
     list_all (\<lambda>c. b 0 c \<noteq> cell_empty) [0..COLS - 1]"

fun exhaustive :: "nat \<Rightarrow> bool \<Rightarrow> Cell \<Rightarrow> board \<Rightarrow> int" where
  "exhaustive 0 maximizing player b = evaluate_position b player"
| "exhaustive (Suc depth) maximizing player b =
     (if finished b then evaluate_position b player
      else if get_valid_moves b = [] then 0
      else if maximizing then
        Max (set (map (\<lambda>col. exhaustive depth False player (drop_piece b col player))
                  (get_valid_moves b)))
      else
        Min (set (map (\<lambda>col. exhaustive depth True player
                        (drop_piece b col (if player = cell_player1 then cell_player2 else cell_player1)))
                  (get_valid_moves b))))"

definition exhaustive_choice :: "board \<Rightarrow> int" where
  "exhaustive_choice b =
     (let cols = get_valid_moves b;
          score = (\<lambda>col. exhaustive (nat (SEARCH_DEPTH - 1)) False cell_player2
                            (drop_piece b col cell_player2))
      in if cols = [] then 3
         else hd (filter (\<lambda>col. score col = Max (set (map score cols))) cols))"

definition ai_hard_move_exhaustive ::
  "nat stream \<Rightarrow> board \<Rightarrow> (GameMove \<times> nat stream \<times> board) option" where
  "ai_hard_move_exhaustive rng b = do {
     (winning_move, b) \<leftarrow> find_winning_move cell_player2 b;
     if row winning_move \<noteq> -1 then Some (winning_move, rng, b)
     else do {
       (blocking_move, b) \<leftarrow> find_winning_move cell_player1 b;
       if row blocking_move \<noteq> -1 then Some (blocking_move, rng, b)
       else do {
         let best_col = exhaustive_choice b;
         case first_empty_from b best_col (ROWS - 1) of
           Some r \<Rightarrow> Some (\<lparr>row = r, column = best_col\<rparr>, rng, b)
         | None \<Rightarrow> do {
             (move, rng) \<leftarrow> ai_easy_move rng b;
             Some (move, rng, b)
           }
       }
     }
   }"

text \<open>
  Notions of the proof: the value a pruned search returns agrees with the exact value
  relative to the window; the loops of \<open>minimax\<close> and of \<open>ai_hard_move\<close> as functions of
  the values of the recursive calls; the value \<open>minimax\<close> returns.
\<close>

definition window_agrees :: "int \<Rightarrow> int \<Rightarrow> int \<Rightarrow> int \<Rightarrow> bool" where
  "window_agrees alpha beta exact v \<longleftrightarrow>
     (v \<le> alpha \<longrightarrow> exact \<le> v) \<and> (alpha < v \<and> v < beta \<longrightarrow> exact = v) \<and> (beta \<le> v \<longrightarrow> v \<le> exact)"

fun max_loop_value :: "(int \<Rightarrow> int \<Rightarrow> int \<Rightarrow> int) \<Rightarrow> int list \<Rightarrow> int \<Rightarrow> int \<Rightarrow> int \<Rightarrow> int" where
  "max_loop_value f [] alpha beta max_eval = max_eval"
| "max_loop_value f (col # cols) alpha beta max_eval =
     (let eval = f col alpha beta;
          max_eval = (if eval > max_eval then eval else max_eval);
          alpha = (if alpha > eval then alpha else eval)
      in if beta \<le> alpha then max_eval else max_loop_value f cols alpha beta max_eval)"

fun min_loop_value :: "(int \<Rightarrow> int \<Rightarrow> int \<Rightarrow> int) \<Rightarrow> int list \<Rightarrow> int \<Rightarrow> int \<Rightarrow> int \<Rightarrow> int" where
  "min_loop_value f [] alpha beta min_eval = min_eval"
| "min_loop_value f (col # cols) alpha beta min_eval =
     (let eval = f col alpha beta;
          min_eval = (if eval < min_eval then eval else min_eval);
          beta = (if beta < eval then beta else eval)
      in if beta \<le> alpha then min_eval else min_loop_value f cols alpha beta min_eval)"

fun pick_best :: "(int \<Rightarrow> int) \<Rightarrow> int list \<Rightarrow> int \<Rightarrow> int \<Rightarrow> int" where
  "pick_best score [] best_score best_col = best_col"
| "pick_best score (col # cols) best_score best_col =
     (if score col > best_score then pick_best score cols (score col) col
      else pick_best score cols best_score best_col)"

definition minimax_value :: "int \<Rightarrow> int \<Rightarrow> int \<Rightarrow> bool \<Rightarrow> Cell \<Rightarrow> board \<Rightarrow> int" where
  "minimax_value d alpha beta m p b = fst (the (minimax d alpha beta m p b))"

section \<open>Game session: player against player\<close>

text \<open>
  The keyboard is the list of the numbers keyed in. \<^verbatim>\<open>input_player_int_range\<close> asks again
  while the number is out of range, \<^verbatim>\<open>input_player_move\<close> asks again while the chosen
  column is full; \<open>None\<close> is the call that waits for input that never comes. \<open>pvp_ply\<close>
  is one pass through the loop of \<^verbatim>\<open>game_init_pvp\<close>, which the menu enters after
  \<^verbatim>\<open>board_init\<close>: it ends the game in a draw or a win, or leaves it running.
\<close>

fun input_player_int_range :: "int \<Rightarrow> int \<Rightarrow> int list \<Rightarrow> (int \<times> int list) option" where
  "input_player_int_range low high [] = None"
| "input_player_int_range low high (v # keyed) =
     (if v < low \<or> v > high then input_player_int_range low high keyed
      else Some (v, keyed))"

lemma input_player_int_range_shorter:
  "input_player_int_range low high keyed = Some (v, keyed') \<Longrightarrow> length keyed' < length keyed"
  by (induction keyed) (auto split: if_splits)

function input_player_move :: "int list \<Rightarrow> board \<Rightarrow> (GameMove \<times> int list) option" where
  "input_player_move keyed b =
     (case input_player_int_range 1 7 keyed of
        None \<Rightarrow> None
      | Some (v, keyed) \<Rightarrow>
          let col = v - 1 in
          case first_empty_from b col (ROWS - 1) of
            None \<Rightarrow> input_player_move keyed b
          | Some r \<Rightarrow> Some (\<lparr>row = r, column = col\<rparr>, keyed))"
  by pat_completeness auto
termination
  by (relation "measure (\<lambda>(keyed, b). length keyed)")
    (auto dest: input_player_int_range_shorter)

declare input_player_move.simps [simp del]

datatype outcome = Running | Draw | Win Cell

record game =
  the_board :: board
  count_moves :: int
  turn :: int

definition pvp_ply :: "int list \<Rightarrow> game \<Rightarrow> (outcome \<times> game \<times> int list) option" where
  "pvp_ply keyed g =
     (if count_moves g = BOARD_FULL then Some (Draw, g, keyed)
      else
        let player = (if turn g = 0 then cell_player1 else cell_player2);
            turn' = (if turn g = 0 then 1 else 0)
        in do {
          (move, keyed) \<leftarrow> input_player_move keyed (the_board g);
          b \<leftarrow> set_cell (the_board g) (row move) (column move) player;
          let g' = \<lparr>the_board = b, count_moves = count_moves g + 1, turn = turn'\<rparr>;
          if count_moves g' > 6 then do {
            winner \<leftarrow> check_winner b move player;
            if winner then Some (Win player, g', keyed) else Some (Running, g', keyed)
          }
          else Some (Running, g', keyed)
        })"

inductive reachable :: "game \<Rightarrow> bool" where
  start: "reachable \<lparr>the_board = board_init, count_moves = 0, turn = 0\<rparr>"
| ply: "reachable g \<Longrightarrow> pvp_ply keyed g = Some (Running, g', keyed') \<Longrightarrow> reachable g'"

text \<open>
  The number of a player's pieces on the grid, and the bookkeeping of a session: the
  players alternate, Player 1 first, and every ply adds one piece of the mover.
\<close>

definition pieces :: "board \<Rightarrow> Cell \<Rightarrow> nat" where
  "pieces b p = length (filter (\<lambda>(r, c). b r c = p) grid_cells)"

definition session_inv :: "game \<Rightarrow> bool" where
  "session_inv g \<longleftrightarrow>
     0 \<le> count_moves g \<and>
     turn g = count_moves g mod 2 \<and>
     int (pieces (the_board g) cell_player1) = (count_moves g + 1) div 2 \<and>
     int (pieces (the_board g) cell_player2) = count_moves g div 2"

section \<open>Example positions\<close>

text \<open>
  The position after the drops 1, 1, 2, 2, 4, 4, 3 (columns counted from 1, Player 1
  first): Player 1 holds columns 0, 1, 3 of the bottom row and has just completed the row
  at column 2.
\<close>

definition split_row_board :: board where
  "split_row_board =
     place (place (place (place (place (place (place board_init
       5 0 cell_player1) 4 0 cell_player2) 5 1 cell_player1) 4 1 cell_player2)
       5 3 cell_player1) 4 3 cell_player2) 5 2 cell_player1"


text \<open>
  The position after the drops 7, 1, 1, 2, 2, 3, 3 (columns counted from 1, Player 1
  first): Player 2 holds columns 0, 1, 2 of the bottom row and completes the row by
  dropping in column 3.
\<close>

definition medium_win_board :: board where
  "medium_win_board =
     place (place (place (place (place (place (place board_init
       5 6 cell_player1) 5 0 cell_player2) 4 0 cell_player1) 5 1 cell_player2)
       4 1 cell_player1) 5 2 cell_player2) 4 2 cell_player1"

text \<open>
  The position after the drops 1, 1, 1, 1, 1, 1, 2 (columns counted from 1, Player 1
  first): column 0 is full and it is the computer's turn.
\<close>

definition column0_full_board :: board where
  "column0_full_board =
     place (place (place (place (place (place (place board_init
       5 0 cell_player1) 4 0 cell_player2) 3 0 cell_player1) 2 0 cell_player2)
       1 0 cell_player1) 0 0 cell_player2) 5 1 cell_player1"

section \<open>Properties of the board primitives\<close>

lemma place_same [simp]: "place b r c v r c = v"
  by (simp add: place_def)

lemma place_other [simp]: "(r', c') \<noteq> (r, c) \<Longrightarrow> place b r c v r' c' = b r' c'"
  by (auto simp: place_def)

lemma place_apply: "place b r c v r' c' = (if r' = r \<and> c' = c then v else b r' c')"
  by (auto simp: place_def)

lemma place_undo: "b r c = e \<Longrightarrow> place (place b r c v) r c e = b"
  by (auto simp: place_def fun_eq_iff)

lemma first_empty_from_Some:
  "first_empty_from b col r0 = Some r \<Longrightarrow>
     0 \<le> r \<and> r \<le> r0 \<and> b r col = cell_empty \<and> (\<forall>r'. r < r' \<and> r' \<le> r0 \<longrightarrow> b r' col \<noteq> cell_empty)"
proof (induction b col r0 rule: first_empty_from.induct)
  case (1 b col r0)
  show ?case
  proof (cases "r0 \<ge> 0 \<and> b r0 col \<noteq> cell_empty")
    case True
    with "1.prems" have "first_empty_from b col (r0 - 1) = Some r"
      by (simp add: first_empty_from.simps [of b col r0])
    with "1.IH" True have IH: "0 \<le> r \<and> r \<le> r0 - 1 \<and> b r col = cell_empty \<and>
        (\<forall>r'. r < r' \<and> r' \<le> r0 - 1 \<longrightarrow> b r' col \<noteq> cell_empty)" by simp
    have "b r' col \<noteq> cell_empty" if "r < r'" "r' \<le> r0" for r'
      using that IH True by (cases "r' = r0") auto
    with IH show ?thesis by auto
  next
    case False
    with "1.prems" show ?thesis
      by (auto simp: first_empty_from.simps [of b col r0] split: if_splits)
  qed
qed

lemma first_empty_from_None:
  "first_empty_from b col r0 = None \<Longrightarrow> 0 \<le> r \<Longrightarrow> r \<le> r0 \<Longrightarrow> b r col \<noteq> cell_empty"
proof (induction b col r0 rule: first_empty_from.induct)
  case (1 b col r0)
  from "1.prems" have ne: "b r0 col \<noteq> cell_empty" and rec: "first_empty_from b col (r0 - 1) = None"
    by (auto simp: first_empty_from.simps [of b col r0] split: if_splits)
  show ?case
  proof (cases "r = r0")
    case True
    with ne show ?thesis by simp
  next
    case False
    with "1.IH" "1.prems" ne rec show ?thesis by simp
  qed
qed

lemma lowest_empty_Some:
  "lowest_empty b col = Some r \<Longrightarrow>
     0 \<le> r \<and> r < ROWS \<and> b r col = cell_empty \<and> (\<forall>r'. r < r' \<and> r' < ROWS \<longrightarrow> b r' col \<noteq> cell_empty)"
  using first_empty_from_Some [of b col "ROWS - 1" r] by (auto simp: lowest_empty_def)

lemma lowest_empty_None:
  "lowest_empty b col = None \<Longrightarrow> 0 \<le> r \<Longrightarrow> r < ROWS \<Longrightarrow> b r col \<noteq> cell_empty"
  using first_empty_from_None [of b col "ROWS - 1" r] by (auto simp: lowest_empty_def)

lemma lowest_empty_exists:
  assumes "0 \<le> r" "r < ROWS" "b r col = cell_empty"
  shows "\<exists>r0. lowest_empty b col = Some r0"
proof (cases "lowest_empty b col")
  case None
  from lowest_empty_None [OF None assms(1,2)] assms(3) show ?thesis by simp
next
  case (Some r0)
  then show ?thesis by simp
qed

section \<open>Dropping a piece\<close>

text \<open>
  C4. For every board, every column 0 to 6 and every player: when the column holds an
  Empty cell, \<open>make_move\<close> returns the lowest Empty row (the largest row index whose cell
  is Empty), the cell at that row and column now holds the player's piece and every other
  cell is unchanged; when the column holds no Empty cell it returns -1 and the board is
  unchanged.
\<close>

theorem make_move_drop:
  assumes "0 \<le> col" "col \<le> 6"
  shows "((\<exists>r. 0 \<le> r \<and> r \<le> 5 \<and> b r col = cell_empty) \<longrightarrow>
            (\<exists>r b'. make_move b col player = Some (r, b') \<and>
               0 \<le> r \<and> r \<le> 5 \<and> b r col = cell_empty \<and>
               (\<forall>r'. r < r' \<and> r' \<le> 5 \<longrightarrow> b r' col \<noteq> cell_empty) \<and>
               b' r col = player \<and>
               (\<forall>r' c'. (r', c') \<noteq> (r, col) \<longrightarrow> b' r' c' = b r' c')))
       \<and> ((\<forall>r. 0 \<le> r \<and> r \<le> 5 \<longrightarrow> b r col \<noteq> cell_empty) \<longrightarrow>
            make_move b col player = Some (-1, b))"
proof (intro conjI impI)
  assume "\<exists>r. 0 \<le> r \<and> r \<le> 5 \<and> b r col = cell_empty"
  then obtain r1 where "0 \<le> r1" "r1 < ROWS" "b r1 col = cell_empty"
    by (auto simp: ROWS_def)
  from lowest_empty_exists [of r1 b col] this
  obtain r where r: "lowest_empty b col = Some r" by blast
  from lowest_empty_Some [OF r]
  have p: "0 \<le> r" "r \<le> 5" "b r col = cell_empty"
    and q: "\<forall>r'. r < r' \<and> r' \<le> 5 \<longrightarrow> b r' col \<noteq> cell_empty"
    by (simp_all add: ROWS_def)
  from assms r have m: "make_move b col player = Some (r, place b r col player)"
    by (simp add: make_move_def COLS_def)
  have u: "\<forall>r' c'. (r', c') \<noteq> (r, col) \<longrightarrow> place b r col player r' c' = b r' c'"
    by simp
  have s: "place b r col player r col = player" by simp
  from m p q s u
  show "\<exists>r b'. make_move b col player = Some (r, b') \<and>
               0 \<le> r \<and> r \<le> 5 \<and> b r col = cell_empty \<and>
               (\<forall>r'. r < r' \<and> r' \<le> 5 \<longrightarrow> b r' col \<noteq> cell_empty) \<and>
               b' r col = player \<and>
               (\<forall>r' c'. (r', c') \<noteq> (r, col) \<longrightarrow> b' r' c' = b r' c')"
    by blast
next
  assume full: "\<forall>r. 0 \<le> r \<and> r \<le> 5 \<longrightarrow> b r col \<noteq> cell_empty"
  have "lowest_empty b col = None"
  proof (cases "lowest_empty b col")
    case (Some r)
    from lowest_empty_Some [OF Some] have "0 \<le> r" "r \<le> 5" "b r col = cell_empty"
      by (simp_all add: ROWS_def)
    with full show ?thesis by blast
  qed simp
  with assms show "make_move b col player = Some (-1, b)"
    by (simp add: make_move_def COLS_def)
qed

theorem make_move_drop_witness:
  "(0::int) \<le> 3 \<and> (3::int) \<le> 6 \<and> board_init 5 3 = cell_empty \<and>
   (\<exists>r b'. make_move board_init 3 cell_player1 = Some (r, b') \<and> b' r 3 = cell_player1) \<and>
   make_move (\<lambda>r c. cell_player2) 3 cell_player1 = Some (-1, \<lambda>r c. cell_player2)"
proof -
  have e: "\<exists>r. 0 \<le> r \<and> r \<le> 5 \<and> board_init r 3 = cell_empty"
    by (rule exI [of _ 5]) (simp add: board_init_def)
  from make_move_drop [of 3 board_init cell_player1] e
  have 1: "\<exists>r b'. make_move board_init 3 cell_player1 = Some (r, b') \<and> b' r 3 = cell_player1"
    by simp blast
  from make_move_drop [of 3 "\<lambda>r c. cell_player2" cell_player1]
  have 2: "make_move (\<lambda>r c. cell_player2) 3 cell_player1 = Some (-1, \<lambda>r c. cell_player2)"
    by simp
  from 1 2 show ?thesis by (simp add: board_init_def)
qed

section \<open>Win detection: the loops and the run through the last move\<close>

lemma holds_in_grid: "holds b p r c \<Longrightarrow> in_grid r c"
  by (simp add: holds_def)

lemma cell_at_in_grid: "in_grid r c \<Longrightarrow> cell_at b r c = Some (b r c)"
  by (simp add: cell_at_def)

lemma run_ext_zero: "\<not> holds b p (r + dr) (c + dc) \<Longrightarrow> run_ext b p r c dr dc 0"
  by (auto simp: run_ext_def)

lemma run_ext_step:
  assumes h: "holds b p (r + dr) (c + dc)" and e: "run_ext b p (r + dr) (c + dc) dr dc k"
  shows "run_ext b p r c dr dc (k + 1)"
proof -
  from e have k: "0 \<le> k"
    and a: "\<And>i. 1 \<le> i \<Longrightarrow> i \<le> k \<Longrightarrow> holds b p (r + dr + i * dr) (c + dc + i * dc)"
    and n: "\<not> holds b p (r + dr + (k + 1) * dr) (c + dc + (k + 1) * dc)"
    by (auto simp: run_ext_def)
  have "holds b p (r + i * dr) (c + i * dc)" if "1 \<le> i" "i \<le> k + 1" for i
  proof (cases "i = 1")
    case True
    with h show ?thesis by simp
  next
    case False
    with that a [of "i - 1"] show ?thesis by (simp add: algebra_simps)
  qed
  moreover from n have "\<not> holds b p (r + (k + 1 + 1) * dr) (c + (k + 1 + 1) * dc)"
    by (simp add: algebra_simps)
  ultimately show ?thesis using k by (simp add: run_ext_def)
qed

lemma vertical_down_run:
  "in_grid r c \<Longrightarrow> \<exists>k. vertical_down b p r c n = Some (n + k) \<and> run_ext b p r c 1 0 k"
proof (induction b p r c n rule: vertical_down.induct)
  case (1 b p r c n)
  show ?case
  proof (cases "holds b p (r + 1) c")
    case True
    then have g: "in_grid (r + 1) c" and v: "b (r + 1) c = p"
      by (simp_all add: holds_def)
    have "\<exists>k. vertical_down b p (r + 1) c (n + 1) = Some (n + 1 + k) \<and>
        run_ext b p (r + 1) c 1 0 k"
      by (rule "1.IH" [OF _ cell_at_in_grid [OF g] v g]) (use g in \<open>simp add: in_grid_def\<close>)
    then obtain k where k: "vertical_down b p (r + 1) c (n + 1) = Some (n + 1 + k)"
      "run_ext b p (r + 1) c 1 0 k" by blast
    from run_ext_step [of b p r "1" c "0" k] True k(2)
    have "run_ext b p r c 1 0 (k + 1)" by simp
    moreover from g v k(1) have "vertical_down b p r c n = Some (n + (k + 1))"
      by (simp add: vertical_down.simps [of b p r c n] cell_at_in_grid in_grid_def)
    ultimately show ?thesis by blast
  next
    case False
    from False "1.prems" have "vertical_down b p r c n = Some n"
      by (auto simp: vertical_down.simps [of b p r c n] cell_at_def holds_def in_grid_def)
    with run_ext_zero [of b p r "1" c "0"] False show ?thesis by auto
  qed
qed

lemma vertical_up_run:
  "in_grid r c \<Longrightarrow> \<exists>k. vertical_up b p r c n = Some (n + k) \<and> run_ext b p r c (-1) 0 k"
proof (induction b p r c n rule: vertical_up.induct)
  case (1 b p r c n)
  show ?case
  proof (cases "holds b p (r - 1) c")
    case True
    then have g: "in_grid (r - 1) c" and v: "b (r - 1) c = p"
      by (simp_all add: holds_def)
    have "\<exists>k. vertical_up b p (r - 1) c (n + 1) = Some (n + 1 + k) \<and>
        run_ext b p (r - 1) c (-1) 0 k"
      by (rule "1.IH" [OF _ cell_at_in_grid [OF g] v g]) (use g in \<open>simp add: in_grid_def\<close>)
    then obtain k where k: "vertical_up b p (r - 1) c (n + 1) = Some (n + 1 + k)"
      "run_ext b p (r - 1) c (-1) 0 k" by blast
    from run_ext_step [of b p r "-1" c "0" k] True k(2)
    have "run_ext b p r c (-1) 0 (k + 1)" by simp
    moreover from g v k(1) have "vertical_up b p r c n = Some (n + (k + 1))"
      by (simp add: vertical_up.simps [of b p r c n] cell_at_in_grid in_grid_def)
    ultimately show ?thesis by blast
  next
    case False
    from False "1.prems" have "vertical_up b p r c n = Some n"
      by (auto simp: vertical_up.simps [of b p r c n] cell_at_def holds_def in_grid_def)
    with run_ext_zero [of b p r "-1" c "0"] False show ?thesis by auto
  qed
qed

lemma horizontal_right_run:
  "in_grid r c \<Longrightarrow> \<exists>k. horizontal_right b p r c n = Some (n + k) \<and> run_ext b p r c 0 1 k"
proof (induction b p r c n rule: horizontal_right.induct)
  case (1 b p r c n)
  show ?case
  proof (cases "holds b p r (c + 1)")
    case True
    then have g: "in_grid r (c + 1)" and v: "b r (c + 1) = p"
      by (simp_all add: holds_def)
    have "\<exists>k. horizontal_right b p r (c + 1) (n + 1) = Some (n + 1 + k) \<and>
        run_ext b p r (c + 1) 0 1 k"
      by (rule "1.IH" [OF _ cell_at_in_grid [OF g] v g]) (use g in \<open>simp add: in_grid_def\<close>)
    then obtain k where k: "horizontal_right b p r (c + 1) (n + 1) = Some (n + 1 + k)"
      "run_ext b p r (c + 1) 0 1 k" by blast
    from run_ext_step [of b p r "0" c "1" k] True k(2)
    have "run_ext b p r c 0 1 (k + 1)" by simp
    moreover from g v k(1) have "horizontal_right b p r c n = Some (n + (k + 1))"
      by (simp add: horizontal_right.simps [of b p r c n] cell_at_in_grid in_grid_def)
    ultimately show ?thesis by blast
  next
    case False
    from False "1.prems" have "horizontal_right b p r c n = Some n"
      by (auto simp: horizontal_right.simps [of b p r c n] cell_at_def holds_def in_grid_def)
    with run_ext_zero [of b p r "0" c "1"] False show ?thesis by auto
  qed
qed

lemma horizontal_left_run:
  "in_grid r c \<Longrightarrow> \<exists>k. horizontal_left b p r c n = Some (n + k) \<and> run_ext b p r c 0 (-1) k"
proof (induction b p r c n rule: horizontal_left.induct)
  case (1 b p r c n)
  show ?case
  proof (cases "holds b p r (c - 1)")
    case True
    then have g: "in_grid r (c - 1)" and v: "b r (c - 1) = p"
      by (simp_all add: holds_def)
    have "\<exists>k. horizontal_left b p r (c - 1) (n + 1) = Some (n + 1 + k) \<and>
        run_ext b p r (c - 1) 0 (-1) k"
      by (rule "1.IH" [OF _ cell_at_in_grid [OF g] v g]) (use g in \<open>simp add: in_grid_def\<close>)
    then obtain k where k: "horizontal_left b p r (c - 1) (n + 1) = Some (n + 1 + k)"
      "run_ext b p r (c - 1) 0 (-1) k" by blast
    from run_ext_step [of b p r "0" c "-1" k] True k(2)
    have "run_ext b p r c 0 (-1) (k + 1)" by simp
    moreover from g v k(1) have "horizontal_left b p r c n = Some (n + (k + 1))"
      by (simp add: horizontal_left.simps [of b p r c n] cell_at_in_grid in_grid_def)
    ultimately show ?thesis by blast
  next
    case False
    from False "1.prems" have "horizontal_left b p r c n = Some n"
      by (auto simp: horizontal_left.simps [of b p r c n] cell_at_def holds_def in_grid_def)
    with run_ext_zero [of b p r "0" c "-1"] False show ?thesis by auto
  qed
qed

lemma diagonal_up_right_run:
  "in_grid r c \<Longrightarrow> \<exists>k. diagonal_up_right b p r c n = Some (n + k) \<and> run_ext b p r c (-1) 1 k"
proof (induction b p r c n rule: diagonal_up_right.induct)
  case (1 b p r c n)
  show ?case
  proof (cases "holds b p (r - 1) (c + 1)")
    case True
    then have g: "in_grid (r - 1) (c + 1)" and v: "b (r - 1) (c + 1) = p"
      by (simp_all add: holds_def)
    have "\<exists>k. diagonal_up_right b p (r - 1) (c + 1) (n + 1) = Some (n + 1 + k) \<and>
        run_ext b p (r - 1) (c + 1) (-1) 1 k"
      by (rule "1.IH" [OF _ cell_at_in_grid [OF g] v g]) (use g in \<open>simp add: in_grid_def\<close>)
    then obtain k where k: "diagonal_up_right b p (r - 1) (c + 1) (n + 1) = Some (n + 1 + k)"
      "run_ext b p (r - 1) (c + 1) (-1) 1 k" by blast
    from run_ext_step [of b p r "-1" c "1" k] True k(2)
    have "run_ext b p r c (-1) 1 (k + 1)" by simp
    moreover from g v k(1) have "diagonal_up_right b p r c n = Some (n + (k + 1))"
      by (simp add: diagonal_up_right.simps [of b p r c n] cell_at_in_grid in_grid_def)
    ultimately show ?thesis by blast
  next
    case False
    from False "1.prems" have "diagonal_up_right b p r c n = Some n"
      by (auto simp: diagonal_up_right.simps [of b p r c n] cell_at_def holds_def in_grid_def)
    with run_ext_zero [of b p r "-1" c "1"] False show ?thesis by auto
  qed
qed

lemma diagonal_down_left_run:
  "in_grid r c \<Longrightarrow> \<exists>k. diagonal_down_left b p r c n = Some (n + k) \<and> run_ext b p r c 1 (-1) k"
proof (induction b p r c n rule: diagonal_down_left.induct)
  case (1 b p r c n)
  show ?case
  proof (cases "holds b p (r + 1) (c - 1)")
    case True
    then have g: "in_grid (r + 1) (c - 1)" and v: "b (r + 1) (c - 1) = p"
      by (simp_all add: holds_def)
    have "\<exists>k. diagonal_down_left b p (r + 1) (c - 1) (n + 1) = Some (n + 1 + k) \<and>
        run_ext b p (r + 1) (c - 1) 1 (-1) k"
      by (rule "1.IH" [OF _ cell_at_in_grid [OF g] v g]) (use g in \<open>simp add: in_grid_def\<close>)
    then obtain k where k: "diagonal_down_left b p (r + 1) (c - 1) (n + 1) = Some (n + 1 + k)"
      "run_ext b p (r + 1) (c - 1) 1 (-1) k" by blast
    from run_ext_step [of b p r "1" c "-1" k] True k(2)
    have "run_ext b p r c 1 (-1) (k + 1)" by simp
    moreover from g v k(1) have "diagonal_down_left b p r c n = Some (n + (k + 1))"
      by (simp add: diagonal_down_left.simps [of b p r c n] cell_at_in_grid in_grid_def)
    ultimately show ?thesis by blast
  next
    case False
    from False "1.prems" have "diagonal_down_left b p r c n = Some n"
      by (auto simp: diagonal_down_left.simps [of b p r c n] cell_at_def holds_def in_grid_def)
    with run_ext_zero [of b p r "1" c "-1"] False show ?thesis by auto
  qed
qed

lemma diagonal_up_left_run:
  "in_grid r c \<Longrightarrow> \<exists>k. diagonal_up_left b p r c n = Some (n + k) \<and> run_ext b p r c (-1) (-1) k"
proof (induction b p r c n rule: diagonal_up_left.induct)
  case (1 b p r c n)
  show ?case
  proof (cases "holds b p (r - 1) (c - 1)")
    case True
    then have g: "in_grid (r - 1) (c - 1)" and v: "b (r - 1) (c - 1) = p"
      by (simp_all add: holds_def)
    have "\<exists>k. diagonal_up_left b p (r - 1) (c - 1) (n + 1) = Some (n + 1 + k) \<and>
        run_ext b p (r - 1) (c - 1) (-1) (-1) k"
      by (rule "1.IH" [OF _ cell_at_in_grid [OF g] v g]) (use g in \<open>simp add: in_grid_def\<close>)
    then obtain k where k: "diagonal_up_left b p (r - 1) (c - 1) (n + 1) = Some (n + 1 + k)"
      "run_ext b p (r - 1) (c - 1) (-1) (-1) k" by blast
    from run_ext_step [of b p r "-1" c "-1" k] True k(2)
    have "run_ext b p r c (-1) (-1) (k + 1)" by simp
    moreover from g v k(1) have "diagonal_up_left b p r c n = Some (n + (k + 1))"
      by (simp add: diagonal_up_left.simps [of b p r c n] cell_at_in_grid in_grid_def)
    ultimately show ?thesis by blast
  next
    case False
    from False "1.prems" have "diagonal_up_left b p r c n = Some n"
      by (auto simp: diagonal_up_left.simps [of b p r c n] cell_at_def holds_def in_grid_def)
    with run_ext_zero [of b p r "-1" c "-1"] False show ?thesis by auto
  qed
qed

lemma diagonal_down_right_run:
  "in_grid r c \<Longrightarrow> \<exists>k. diagonal_down_right b p r c n = Some (n + k) \<and> run_ext b p r c 1 1 k"
proof (induction b p r c n rule: diagonal_down_right.induct)
  case (1 b p r c n)
  show ?case
  proof (cases "holds b p (r + 1) (c + 1)")
    case True
    then have g: "in_grid (r + 1) (c + 1)" and v: "b (r + 1) (c + 1) = p"
      by (simp_all add: holds_def)
    have "\<exists>k. diagonal_down_right b p (r + 1) (c + 1) (n + 1) = Some (n + 1 + k) \<and>
        run_ext b p (r + 1) (c + 1) 1 1 k"
      by (rule "1.IH" [OF _ cell_at_in_grid [OF g] v g]) (use g in \<open>simp add: in_grid_def\<close>)
    then obtain k where k: "diagonal_down_right b p (r + 1) (c + 1) (n + 1) = Some (n + 1 + k)"
      "run_ext b p (r + 1) (c + 1) 1 1 k" by blast
    from run_ext_step [of b p r "1" c "1" k] True k(2)
    have "run_ext b p r c 1 1 (k + 1)" by simp
    moreover from g v k(1) have "diagonal_down_right b p r c n = Some (n + (k + 1))"
      by (simp add: diagonal_down_right.simps [of b p r c n] cell_at_in_grid in_grid_def)
    ultimately show ?thesis by blast
  next
    case False
    from False "1.prems" have "diagonal_down_right b p r c n = Some n"
      by (auto simp: diagonal_down_right.simps [of b p r c n] cell_at_def holds_def in_grid_def)
    with run_ext_zero [of b p r "1" c "1"] False show ?thesis by auto
  qed
qed

lemma run_window:
  assumes h: "holds b p r c"
    and f: "run_ext b p r c dr dc k1"
    and g: "run_ext b p r c (- dr) (- dc) k2"
  shows "(1 + k1 + k2 \<ge> 4) = four_on_axis b p r c dr dc"
proof
  assume len: "4 \<le> 1 + k1 + k2"
  from f have k1: "0 \<le> k1" and fw: "\<And>i. 1 \<le> i \<Longrightarrow> i \<le> k1 \<Longrightarrow> holds b p (r + i * dr) (c + i * dc)"
    by (auto simp: run_ext_def)
  from g have k2: "0 \<le> k2" and bw: "\<And>i. 1 \<le> i \<Longrightarrow> i \<le> k2 \<Longrightarrow> holds b p (r + i * (- dr)) (c + i * (- dc))"
    by (auto simp: run_ext_def)
  define j where "j = min k2 3"
  have j: "0 \<le> j" "j \<le> 3" "j \<le> k2" "3 - j \<le> k1"
    using k1 k2 len by (auto simp: j_def)
  have "holds b p (r + (i - j) * dr) (c + (i - j) * dc)" if "i \<in> {0..3}" for i
  proof -
    consider "i - j = 0" | "1 \<le> i - j" | "1 \<le> j - i" by linarith
    then show ?thesis
    proof cases
      case 1
      with h show ?thesis by simp
    next
      case 2
      with that j fw [of "i - j"] show ?thesis by simp
    next
      case 3
      with that j bw [of "j - i"] show ?thesis by (simp add: algebra_simps)
    qed
  qed
  with j show "four_on_axis b p r c dr dc"
    unfolding four_on_axis_def by (intro bexI [of _ j]) auto
next
  assume "four_on_axis b p r c dr dc"
  then obtain j where j: "0 \<le> j" "j \<le> 3"
    and w: "\<And>i. 0 \<le> i \<Longrightarrow> i \<le> 3 \<Longrightarrow> holds b p (r + (i - j) * dr) (c + (i - j) * dc)"
    by (auto simp: four_on_axis_def)
  from f have k1: "0 \<le> k1" and nf: "\<not> holds b p (r + (k1 + 1) * dr) (c + (k1 + 1) * dc)"
    by (auto simp: run_ext_def)
  from g have k2: "0 \<le> k2" and nb: "\<not> holds b p (r + (k2 + 1) * (- dr)) (c + (k2 + 1) * (- dc))"
    by (auto simp: run_ext_def)
  have a: "3 - j \<le> k1"
  proof (rule ccontr)
    assume "\<not> 3 - j \<le> k1"
    with k1 j w [of "k1 + 1 + j"] nf show False by simp
  qed
  have c: "j \<le> k2"
  proof (rule ccontr)
    assume "\<not> j \<le> k2"
    with k2 j w [of "j - (k2 + 1)"] nb show False by (simp add: algebra_simps)
  qed
  from a c show "4 \<le> 1 + k1 + k2" by simp
qed

lemma check_vertical_correct:
  assumes "in_grid r c" "b r c = p"
  shows "check_vertical b \<lparr>row = r, column = c\<rparr> p = Some (four_on_axis b p r c 1 0)"
proof -
  from vertical_down_run [OF assms(1)] obtain k1
    where k1: "vertical_down b p r c 1 = Some (1 + k1)" "run_ext b p r c 1 0 k1" by blast
  from vertical_up_run [OF assms(1)] obtain k2
    where k2: "vertical_up b p r c (1 + k1) = Some (1 + k1 + k2)" "run_ext b p r c (-1) 0 k2" by blast
  from assms have h: "holds b p r c" by (simp add: holds_def)
  from run_window [OF h k1(2)] k2(2) have "(4 \<le> 1 + k1 + k2) = four_on_axis b p r c 1 0" by simp
  with k1(1) k2(1) show ?thesis by (simp add: check_vertical_def WIN_COUNT_def)
qed

lemma check_horizontal_correct:
  assumes "in_grid r c" "b r c = p"
  shows "check_horizontal b \<lparr>row = r, column = c\<rparr> p = Some (four_on_axis b p r c 0 1)"
proof -
  from horizontal_right_run [OF assms(1)] obtain k1
    where k1: "horizontal_right b p r c 1 = Some (1 + k1)" "run_ext b p r c 0 1 k1" by blast
  from horizontal_left_run [OF assms(1)] obtain k2
    where k2: "horizontal_left b p r c (1 + k1) = Some (1 + k1 + k2)" "run_ext b p r c 0 (-1) k2" by blast
  from assms have h: "holds b p r c" by (simp add: holds_def)
  from run_window [OF h k1(2)] k2(2) have "(4 \<le> 1 + k1 + k2) = four_on_axis b p r c 0 1" by simp
  with k1(1) k2(1) show ?thesis by (simp add: check_horizontal_def WIN_COUNT_def)
qed

lemma check_diagonal_correct:
  assumes "in_grid r c" "b r c = p"
  shows "check_diagonal b \<lparr>row = r, column = c\<rparr> p =
           Some (four_on_axis b p r c (-1) 1 \<or> four_on_axis b p r c 1 1)"
proof -
  from diagonal_up_right_run [OF assms(1)] obtain k1
    where k1: "diagonal_up_right b p r c 1 = Some (1 + k1)" "run_ext b p r c (-1) 1 k1" by blast
  from diagonal_down_left_run [OF assms(1)] obtain k2
    where k2: "diagonal_down_left b p r c (1 + k1) = Some (1 + k1 + k2)" "run_ext b p r c 1 (-1) k2" by blast
  from diagonal_up_left_run [OF assms(1)] obtain k3
    where k3: "diagonal_up_left b p r c 1 = Some (1 + k3)" "run_ext b p r c (-1) (-1) k3" by blast
  from diagonal_down_right_run [OF assms(1)] obtain k4
    where k4: "diagonal_down_right b p r c (1 + k3) = Some (1 + k3 + k4)" "run_ext b p r c 1 1 k4" by blast
  from assms have h: "holds b p r c" by (simp add: holds_def)
  from run_window [OF h k1(2)] k2(2) have a: "(4 \<le> 1 + k1 + k2) = four_on_axis b p r c (-1) 1" by simp
  from run_window [OF h k4(2)] k3(2) have b: "(4 \<le> 1 + k4 + k3) = four_on_axis b p r c 1 1" by simp
  from b have b': "(4 \<le> 1 + k3 + k4) = four_on_axis b p r c 1 1" by (simp add: add.commute add.left_commute)
  from k1(1) k2(1) k3(1) k4(1) a b' show ?thesis
    by (simp add: check_diagonal_def WIN_COUNT_def)
qed

lemma check_winner_correct:
  assumes "in_grid r c" "b r c = p"
  shows "check_winner b \<lparr>row = r, column = c\<rparr> p = Some (four_through b p r c)"
  using assms check_vertical_correct [of r c b p] check_horizontal_correct [of r c b p]
    check_diagonal_correct [of r c b p]
  by (simp add: check_winner_def four_through_def)

lemma check_functions_total:
  assumes g: "in_grid r c"
  shows "\<exists>v. check_vertical b \<lparr>row = r, column = c\<rparr> p = Some v"
    and "\<exists>h. check_horizontal b \<lparr>row = r, column = c\<rparr> p = Some h"
    and "\<exists>d. check_diagonal b \<lparr>row = r, column = c\<rparr> p = Some d"
    and "\<exists>w. check_winner b \<lparr>row = r, column = c\<rparr> p = Some w"
proof -
  obtain k1 where k1: "vertical_down b p r c 1 = Some (1 + k1)"
    using vertical_down_run [OF g, of b p 1] by blast
  obtain k2 where k2: "vertical_up b p r c (1 + k1) = Some (1 + k1 + k2)"
    using vertical_up_run [OF g, of b p "1 + k1"] by blast
  from k1 k2 show v: "\<exists>v. check_vertical b \<lparr>row = r, column = c\<rparr> p = Some v"
    by (simp add: check_vertical_def)
  obtain k3 where k3: "horizontal_right b p r c 1 = Some (1 + k3)"
    using horizontal_right_run [OF g, of b p 1] by blast
  obtain k4 where k4: "horizontal_left b p r c (1 + k3) = Some (1 + k3 + k4)"
    using horizontal_left_run [OF g, of b p "1 + k3"] by blast
  from k3 k4 show h: "\<exists>h. check_horizontal b \<lparr>row = r, column = c\<rparr> p = Some h"
    by (simp add: check_horizontal_def)
  obtain k5 where k5: "diagonal_up_right b p r c 1 = Some (1 + k5)"
    using diagonal_up_right_run [OF g, of b p 1] by blast
  obtain k6 where k6: "diagonal_down_left b p r c (1 + k5) = Some (1 + k5 + k6)"
    using diagonal_down_left_run [OF g, of b p "1 + k5"] by blast
  obtain k7 where k7: "diagonal_up_left b p r c 1 = Some (1 + k7)"
    using diagonal_up_left_run [OF g, of b p 1] by blast
  obtain k8 where k8: "diagonal_down_right b p r c (1 + k7) = Some (1 + k7 + k8)"
    using diagonal_down_right_run [OF g, of b p "1 + k7"] by blast
  from k5 k6 k7 k8 show d: "\<exists>d. check_diagonal b \<lparr>row = r, column = c\<rparr> p = Some d"
    by (auto simp: check_diagonal_def)
  from v h d show "\<exists>w. check_winner b \<lparr>row = r, column = c\<rparr> p = Some w"
    by (auto simp: check_winner_def)
qed

lemma lowest_empty_in_grid:
  "lowest_empty b col = Some r \<Longrightarrow> 0 \<le> col \<Longrightarrow> col < COLS \<Longrightarrow> in_grid r col"
  using lowest_empty_Some [of b col r] by (simp add: in_grid_def)


text \<open>
  An access outside the grid does show in the model: a last move outside the grid makes
  the detector fail.
\<close>

lemma check_winner_outside_grid:
  "check_winner board_init \<lparr>row = 0, column = 7\<rparr> cell_player1 = None"
  by code_simp

text \<open>
  C9. For every last move with row in 0..5 and column in 0..6, on every board and for
  every player, none of \<open>check_vertical\<close>, \<open>check_horizontal\<close>, \<open>check_diagonal\<close> and
  \<open>check_winner\<close> reads a cell outside the 6 by 7 grid: each returns a result, never the
  out-of-bounds failure.
\<close>

theorem check_winner_in_bounds:
  assumes "0 \<le> r" "r \<le> 5" "0 \<le> c" "c \<le> 6"
  shows "check_vertical b \<lparr>row = r, column = c\<rparr> p \<noteq> None \<and>
         check_horizontal b \<lparr>row = r, column = c\<rparr> p \<noteq> None \<and>
         check_diagonal b \<lparr>row = r, column = c\<rparr> p \<noteq> None \<and>
         check_winner b \<lparr>row = r, column = c\<rparr> p \<noteq> None"
proof -
  from assms have g: "in_grid r c" by (simp add: in_grid_def ROWS_def COLS_def)
  from check_functions_total [OF g, of b p] show ?thesis by auto
qed

theorem check_winner_in_bounds_witness:
  "(0::int) \<le> 5 \<and> (5::int) \<le> 5 \<and> (0::int) \<le> 2 \<and> (2::int) \<le> 6 \<and>
   check_vertical split_row_board \<lparr>row = 5, column = 2\<rparr> cell_player1 \<noteq> None \<and>
   check_horizontal split_row_board \<lparr>row = 5, column = 2\<rparr> cell_player1 \<noteq> None \<and>
   check_diagonal split_row_board \<lparr>row = 5, column = 2\<rparr> cell_player1 \<noteq> None \<and>
   check_winner split_row_board \<lparr>row = 5, column = 2\<rparr> cell_player1 \<noteq> None"
  using check_winner_in_bounds [of 5 2 split_row_board cell_player1] by simp

text \<open>
  C1. The later revision of the detector meets the claim (\<open>check_winner_correct\<close> above:
  on every board, for a last move on the grid whose cell holds the mover's piece, it
  returns true exactly when some axis through the move carries four in a row). The
  earlier revision does not: on \<open>split_row_board\<close>, where Player 1 has just completed
  the bottom row at column 2 with one piece to the right and two to the left, the cells
  of columns 0 to 3 of row 5 hold Player 1's pieces, the earlier \<open>check_winner\<close> returns
  false and the later one returns true.
\<close>

theorem check_winner_rev1_misses_split_run:
  "holds split_row_board cell_player1 5 0 \<and> holds split_row_board cell_player1 5 1 \<and>
   holds split_row_board cell_player1 5 2 \<and> holds split_row_board cell_player1 5 3 \<and>
   check_winner_rev1 split_row_board \<lparr>row = 5, column = 2\<rparr> cell_player1 = Some False \<and>
   check_winner split_row_board \<lparr>row = 5, column = 2\<rparr> cell_player1 = Some True"
  by (intro conjI) code_simp+

section \<open>Position evaluation: the loops and the sum over windows\<close>

lemma score_window_add:
  "score_window p opp cells s = s + score_window p opp cells 0"
  by (simp add: score_window_def Let_def split: prod.splits)

lemma fold_score_window:
  "fold (\<lambda>x. score_window p opp (f x)) xs s =
     s + sum_list (map (\<lambda>x. score_window p opp (f x) 0) xs)"
proof (induction xs arbitrary: s)
  case Nil
  show ?case by simp
next
  case (Cons x xs)
  have "fold (\<lambda>x. score_window p opp (f x)) (x # xs) s =
      score_window p opp (f x) s + sum_list (map (\<lambda>x. score_window p opp (f x) 0) xs)"
    by (simp add: Cons.IH)
  also have "score_window p opp (f x) s = s + score_window p opp (f x) 0"
    by (rule score_window_add)
  finally show ?case by (simp add: add.assoc)
qed

lemma fold_fold_score_window:
  "fold (\<lambda>x. fold (\<lambda>y. score_window p opp (f x y)) ys) xs s =
     s + sum_list (map (\<lambda>x. sum_list (map (\<lambda>y. score_window p opp (f x y) 0) ys)) xs)"
proof (induction xs arbitrary: s)
  case Nil
  show ?case by simp
next
  case (Cons x xs)
  show ?case
    by (simp add: Cons.IH fold_score_window [of p opp "f x" ys s] add.assoc)
qed

lemma fold_center:
  "fold (\<lambda>r score. if b r 3 = p then score + 3 else score) rs s =
     s + 3 * pieces_in b p (map (\<lambda>r. (r, 3)) rs)"
proof (induction rs arbitrary: s)
  case Nil
  show ?case by (simp add: pieces_in_def)
next
  case (Cons r rs)
  show ?case by (simp add: Cons.IH pieces_in_def)
qed

lemma upto_lists:
  "[0..2] = [0, 1, 2]" "[0..3] = [0, 1, 2, 3]" "[0..5] = [0, 1, 2, 3, 4, 5]"
  "[0..6] = [0, 1, 2, 3, 4, 5, 6]" "[3..5] = [3, 4, 5::int]"
  by (simp_all add: upto.simps)

lemma score_window_value:
  assumes "p \<noteq> cell_empty"
  shows "score_window p (if p = cell_player1 then cell_player2 else cell_player1)
           (map (\<lambda>(r, c). b r c) (window_cells r c d)) 0 = window_value b p (window_cells r c d)"
proof -
  have *: "score_window p (if p = cell_player1 then cell_player2 else cell_player1) [v1, v2, v3, v4] 0 =
      window_value b p [(r1, c1), (r2, c2), (r3, c3), (r4, c4)]"
    if "b r1 c1 = v1" "b r2 c2 = v2" "b r3 c3 = v3" "b r4 c4 = v4" for v1 v2 v3 v4 r1 c1 r2 c2 r3 c3 r4 c4
    using assms that
    by (cases p; cases v1; cases v2; cases v3; cases v4)
      (simp_all add: score_window_def count_window_def window_value_def pieces_in_def)
  show ?thesis
    by (simp add: window_cells_def upto_lists *)
qed

lemma windows_sum:
  fixes g :: "(int \<times> int) list \<Rightarrow> int"
  shows "sum_list (map (\<lambda>r. sum_list (map (\<lambda>c. g (window_cells r c (0, 1))) [0..3])) [0..5])
       + sum_list (map (\<lambda>c. sum_list (map (\<lambda>r. g (window_cells r c (1, 0))) [0..2])) [0..6])
       + sum_list (map (\<lambda>r. sum_list (map (\<lambda>c. g (window_cells r c (1, 1))) [0..3])) [0..2])
       + sum_list (map (\<lambda>r. sum_list (map (\<lambda>c. g (window_cells r c (-1, 1))) [0..3])) [3..5])
       = sum_list (map g all_windows)"
  by (simp add: all_windows_def in_grid_def ROWS_def COLS_def upto_lists)


lemma window_value_mixed:
  assumes "p \<noteq> cell_empty"
    and "0 < pieces_in b p (window_cells r c d)"
    and "0 < pieces_in b (if p = cell_player1 then cell_player2 else cell_player1) (window_cells r c d)"
  shows "window_value b p (window_cells r c d) = 0"
proof -
  have *: "window_value b p [(r1, c1), (r2, c2), (r3, c3), (r4, c4)] = 0"
    if "b r1 c1 = v1" "b r2 c2 = v2" "b r3 c3 = v3" "b r4 c4 = v4"
      "0 < pieces_in b p [(r1, c1), (r2, c2), (r3, c3), (r4, c4)]"
      "0 < pieces_in b (if p = cell_player1 then cell_player2 else cell_player1)
             [(r1, c1), (r2, c2), (r3, c3), (r4, c4)]"
    for v1 v2 v3 v4 r1 c1 r2 c2 r3 c3 r4 c4
    using assms(1) that
    by (cases p; cases v1; cases v2; cases v3; cases v4)
      (simp_all add: window_value_def pieces_in_def)
  from assms(2,3) show ?thesis
    by (simp add: window_cells_def upto_lists *)
qed

lemma all_windows_cells:
  "w \<in> set all_windows \<Longrightarrow> \<exists>r c d. w = window_cells r c d"
  by (auto simp: all_windows_def split: if_splits)

text \<open>
  C3. For every board and for either player, \<open>evaluate_position\<close> equals the sum, over
  every window of four consecutive cells that fits on the board along a row, a column or
  one of the two diagonals, of the window's value (+100 for four of the player's
  pieces, +5 for three and one empty, +2 for two and two empties, -100 for four of the
  opponent's, -4 for three of the opponent's and one empty, 0 otherwise), plus 3 for each
  of the player's pieces in column 3; a window that holds pieces of both players has
  value 0.
\<close>

theorem evaluate_position_window_sum:
  assumes "player \<noteq> cell_empty"
  shows "evaluate_position b player = evaluate_spec b player \<and>
         (\<forall>w \<in> set all_windows.
            0 < pieces_in b player w \<and>
            0 < pieces_in b (if player = cell_player1 then cell_player2 else cell_player1) w \<longrightarrow>
            window_value b player w = 0)"
proof
  let ?opp = "if player = cell_player1 then cell_player2 else cell_player1"
  let ?g = "window_value b player"
  have h: "map (\<lambda>i. b r (c + i)) [0..3] = map (\<lambda>(r, c). b r c) (window_cells r c (0, 1))"
    and v: "map (\<lambda>i. b (r + i) c) [0..3] = map (\<lambda>(r, c). b r c) (window_cells r c (1, 0))"
    and d: "map (\<lambda>i. b (r + i) (c + i)) [0..3] = map (\<lambda>(r, c). b r c) (window_cells r c (1, 1))"
    and a: "map (\<lambda>i. b (r - i) (c + i)) [0..3] = map (\<lambda>(r, c). b r c) (window_cells r c (-1, 1))"
    for r c
    by (simp_all add: window_cells_def)
  have n: "ROWS - 1 = 5" "COLS - 4 = 3" "ROWS - 4 = 2" "COLS - 1 = 6"
    by (simp_all add: ROWS_def COLS_def)
  have "evaluate_position b player =
      sum_list (map (\<lambda>r. sum_list (map (\<lambda>c. ?g (window_cells r c (0, 1))) [0..3])) [0..5])
    + sum_list (map (\<lambda>c. sum_list (map (\<lambda>r. ?g (window_cells r c (1, 0))) [0..2])) [0..6])
    + sum_list (map (\<lambda>r. sum_list (map (\<lambda>c. ?g (window_cells r c (1, 1))) [0..3])) [0..2])
    + sum_list (map (\<lambda>r. sum_list (map (\<lambda>c. ?g (window_cells r c (-1, 1))) [0..3])) [3..5])
    + 3 * pieces_in b player (map (\<lambda>r. (r, 3)) [0..5])"
    unfolding evaluate_position_def Let_def n h v d a fold_fold_score_window fold_center
      score_window_value [OF assms]
    by simp
  then show "evaluate_position b player = evaluate_spec b player"
    unfolding evaluate_spec_def n windows_sum [symmetric] by simp
  show "\<forall>w \<in> set all_windows.
            0 < pieces_in b player w \<and> 0 < pieces_in b ?opp w \<longrightarrow> window_value b player w = 0"
    using window_value_mixed [OF assms] all_windows_cells by blast
qed

theorem evaluate_position_window_sum_witness:
  "cell_player1 \<noteq> cell_empty \<and>
   evaluate_position split_row_board cell_player1 = evaluate_spec split_row_board cell_player1"
  using evaluate_position_window_sum [of cell_player1 split_row_board] by simp

section \<open>The heuristic routines restore the board\<close>

lemma four_on_axis_code [code]:
  "four_on_axis b p r c dr dc \<longleftrightarrow>
     list_ex (\<lambda>j. list_all (\<lambda>i. holds b p (r + (i - j) * dr) (c + (i - j) * dc)) [0, 1, 2, 3])
       [0, 1, 2, 3]"
proof -
  have "{0..3::int} = set [0, 1, 2, 3]" by auto
  then show ?thesis by (simp only: four_on_axis_def list_ex_iff list_all_iff)
qed

lemma winning_move_post_skip:
  assumes "winning_move_post b p (col + 1) m" "\<not> completes_four b p col"
  shows "winning_move_post b p col m"
proof -
  have *: "\<forall>c. col \<le> c \<and> c < u \<longrightarrow> \<not> completes_four b p c"
    if "\<forall>c. col + 1 \<le> c \<and> c < u \<longrightarrow> \<not> completes_four b p c" for u
  proof (intro allI impI)
    fix c assume "col \<le> c \<and> c < u"
    with that assms(2) show "\<not> completes_four b p c" by (cases "c = col") auto
  qed
  show ?thesis
  proof (cases "row m = -1")
    case True
    with assms(1) * [of COLS] show ?thesis by (simp add: winning_move_post_def)
  next
    case False
    with assms(1) * [of "column m"] show ?thesis by (simp add: winning_move_post_def)
  qed
qed

lemma find_winning_move_from_spec:
  "0 \<le> col \<Longrightarrow>
     \<exists>m. find_winning_move_from p col b = Some (m, b) \<and> winning_move_post b p col m"
proof (induction p col b rule: find_winning_move_from.induct)
  case (1 p col b)
  show ?case
  proof (cases "col < COLS")
    case False
    then show ?thesis
      by (auto simp: find_winning_move_from.simps [of p col b] winning_move_post_def)
  next
    case lt: True
    show ?thesis
    proof (cases "first_empty_from b col (ROWS - 1)")
      case None
      then have n: "\<not> completes_four b p col"
        by (simp add: completes_four_def lowest_empty_def)
      from "1.IH"(1) [OF lt None] "1.prems" obtain m
        where m: "find_winning_move_from p (col + 1) b = Some (m, b)"
          "winning_move_post b p (col + 1) m" by auto
      from winning_move_post_skip [OF m(2) n] m(1) lt None show ?thesis
        by (simp add: find_winning_move_from.simps [of p col b])
    next
      case (Some r)
      then have le: "lowest_empty b col = Some r" by (simp add: lowest_empty_def)
      from lowest_empty_in_grid [OF le "1.prems" lt] have g: "in_grid r col" .
      from lowest_empty_Some [OF le] have e: "b r col = cell_empty" and r: "0 \<le> r" by simp_all
      let ?b1 = "place b r col p"
      have w: "check_winner ?b1 \<lparr>row = r, column = col\<rparr> p = Some (four_through ?b1 p r col)"
        by (rule check_winner_correct [OF g]) simp
      have c4: "completes_four b p col = four_through ?b1 p r col"
        by (simp add: completes_four_def le)
      have u: "place ?b1 r col cell_empty = b" using e by (rule place_undo)
      show ?thesis
      proof (cases "four_through ?b1 p r col")
        case True
        have "winning_move_post b p col \<lparr>row = r, column = col\<rparr>"
          using True c4 le lt r by (auto simp: winning_move_post_def)
        with lt Some w u True show ?thesis
          by (simp add: find_winning_move_from.simps [of p col b])
      next
        case False
        from "1.IH"(2) [OF lt Some refl refl w False] "1.prems" u obtain m
          where m: "find_winning_move_from p (col + 1) b = Some (m, b)"
            "winning_move_post b p (col + 1) m" by auto
        from False c4 have n: "\<not> completes_four b p col" by simp
        from winning_move_post_skip [OF m(2) n] m(1) lt Some w u False show ?thesis
          by (simp add: find_winning_move_from.simps [of p col b])
      qed
    qed
  qed
qed

lemma find_winning_move_spec:
  "\<exists>m. find_winning_move p b = Some (m, b) \<and> winning_move_post b p 0 m"
  using find_winning_move_from_spec [of 0 p b] by (simp add: find_winning_move_def)

lemma count_threats_restores:
  assumes g: "in_grid r c" and e: "b r c = cell_empty"
  shows "\<exists>t. count_threats b r c p = Some (t, b) \<and> 0 \<le> t"
proof -
  let ?b1 = "place b r c p"
  obtain k1 where k1: "horizontal_right ?b1 p r c 1 = Some (1 + k1)" "0 \<le> k1"
    using horizontal_right_run [OF g, of ?b1 p 1] by (auto simp: run_ext_def)
  obtain k2 where k2: "horizontal_left ?b1 p r c (1 + k1) = Some (1 + k1 + k2)" "0 \<le> k2"
    using horizontal_left_run [OF g, of ?b1 p "1 + k1"] by (auto simp: run_ext_def)
  obtain k3 where k3: "vertical_down ?b1 p r c 1 = Some (1 + k3)" "0 \<le> k3"
    using vertical_down_run [OF g, of ?b1 p 1] by (auto simp: run_ext_def)
  obtain k4 where k4: "vertical_up ?b1 p r c (1 + k3) = Some (1 + k3 + k4)" "0 \<le> k4"
    using vertical_up_run [OF g, of ?b1 p "1 + k3"] by (auto simp: run_ext_def)
  have u: "place ?b1 r c cell_empty = b" using e by (rule place_undo)
  from g k1 k2 k3 k4 u show ?thesis
    by (simp add: count_threats_def set_cell_def Let_def)
qed


lemma strategic_post_skip:
  assumes "strategic_post b (col + 1) best_score best_move m" "lowest_empty b col = None"
  shows "strategic_post b col best_score best_move m"
proof -
  have "\<forall>c. col \<le> c \<and> c < COLS \<longrightarrow> lowest_empty b c = None"
    if "\<forall>c. col + 1 \<le> c \<and> c < COLS \<longrightarrow> lowest_empty b c = None"
  proof (intro allI impI)
    fix c assume "col \<le> c \<and> c < COLS"
    with that assms(2) show "lowest_empty b c = None" by (cases "c = col") auto
  qed
  with assms(1) show ?thesis by (auto simp: strategic_post_def)
qed

lemma find_best_strategic_move_from_spec:
  "0 \<le> col \<Longrightarrow>
     \<exists>m. find_best_strategic_move_from p col best_score best_move b = Some (m, b) \<and>
         strategic_post b col best_score best_move m"
proof (induction p col best_score best_move b rule: find_best_strategic_move_from.induct)
  case (1 p col best_score best_move b)
  note simps = find_best_strategic_move_from.simps [of p col best_score best_move b]
  show ?case
  proof (cases "col < COLS")
    case False
    then show ?thesis by (auto simp: simps strategic_post_def)
  next
    case lt: True
    show ?thesis
    proof (cases "first_empty_from b col (ROWS - 1)")
      case None
      then have n: "lowest_empty b col = None" by (simp add: lowest_empty_def)
      from "1.IH"(1) [OF lt None] "1.prems" obtain m
        where m: "find_best_strategic_move_from p (col + 1) best_score best_move b = Some (m, b)"
          "strategic_post b (col + 1) best_score best_move m" by auto
      from strategic_post_skip [OF m(2) n] m(1) lt None show ?thesis by (simp add: simps)
    next
      case (Some r)
      then have le: "lowest_empty b col = Some r" by (simp add: lowest_empty_def)
      from lowest_empty_in_grid [OF le "1.prems" lt] have g: "in_grid r col" .
      from lowest_empty_Some [OF le] have e: "b r col = cell_empty" by simp
      from count_threats_restores [of r col b p] g e obtain t
        where t: "count_threats b r col p = Some (t, b)" "0 \<le> t" by blast
      define score where "score = (if col = 3 then t + 3
                               else if col = 2 \<or> col = 4 then t + 2
                               else if col = 1 \<or> col = 5 then t + 1
                               else t)"
      have s0: "0 \<le> score" using t(2) by (simp add: score_def)
      show ?thesis
      proof (cases "score > best_score")
        case True
        from "1.IH"(2) [OF lt Some t(1) refl score_def True] "1.prems" obtain m
          where m: "find_best_strategic_move_from p (col + 1) score \<lparr>row = r, column = col\<rparr> b
                      = Some (m, b)"
            "strategic_post b (col + 1) score \<lparr>row = r, column = col\<rparr> m" by auto
        from m(2) le lt have "strategic_post b col best_score best_move m"
          by (auto simp: strategic_post_def)
        with m(1) lt Some t(1) True show ?thesis by (simp add: simps score_def)
      next
        case False
        from "1.IH"(3) [OF lt Some t(1) refl score_def False] "1.prems" obtain m
          where m: "find_best_strategic_move_from p (col + 1) best_score best_move b = Some (m, b)"
            "strategic_post b (col + 1) best_score best_move m" by auto
        from False s0 have "0 \<le> best_score" by simp
        with m(2) have "strategic_post b col best_score best_move m"
          by (auto simp: strategic_post_def)
        with m(1) lt Some t(1) False show ?thesis by (simp add: simps score_def)
      qed
    qed
  qed
qed

lemma find_best_strategic_move_spec:
  "\<exists>m. find_best_strategic_move p b = Some (m, b) \<and>
       ((0 \<le> column m \<and> column m < COLS \<and> lowest_empty b (column m) = Some (row m)) \<or>
        (row m = -1 \<and> (\<forall>c. 0 \<le> c \<and> c < COLS \<longrightarrow> lowest_empty b c = None)))"
  using find_best_strategic_move_from_spec [of 0 p "-1" "\<lparr>row = -1, column = -1\<rparr>" b]
  by (auto simp: find_best_strategic_move_def strategic_post_def)

lemma shuffle_set:
  "\<forall>i \<in> set is. i < 7 \<Longrightarrow> length xs = 7 \<Longrightarrow>
     set (fst (shuffle is xs rng)) = set xs \<and> length (fst (shuffle is xs rng)) = 7"
proof (induction "is" arbitrary: xs rng)
  case Nil
  then show ?case by simp
next
  case (Cons i "is")
  let ?j = "shd rng mod 7"
  let ?ys = "xs[i := xs ! ?j, ?j := xs ! i]"
  from Cons.prems have i: "i < length xs" and j: "?j < length xs" by simp_all
  from set_swap [OF i j] have s: "set ?ys = set xs" .
  have l: "length ?ys = 7" using Cons.prems by simp
  from Cons.IH [of ?ys "stl rng"] Cons.prems l s show ?case by (simp add: Let_def)
qed

lemma first_valid_column_Some:
  "first_valid_column b cols = Some m \<Longrightarrow>
     column m \<in> set cols \<and> lowest_empty b (column m) = Some (row m)"
  by (induction cols) (auto simp: lowest_empty_def split: option.splits)

lemma first_valid_column_None:
  "first_valid_column b cols = None \<Longrightarrow> c \<in> set cols \<Longrightarrow> lowest_empty b c = None"
  by (induction cols) (auto simp: lowest_empty_def split: option.splits)


lemma ai_medium_move_cases:
  assumes open_col: "0 \<le> c" "c < COLS" "lowest_empty b c \<noteq> None"
  shows "\<exists>m rng'. ai_medium_move rng b = Some (m, rng', b) \<and>
           0 \<le> column m \<and> column m < COLS \<and> lowest_empty b (column m) = Some (row m)"
proof -
  obtain m1 where m1: "find_winning_move cell_player2 b = Some (m1, b)"
    "winning_move_post b cell_player2 0 m1"
    using find_winning_move_spec by blast
  obtain m2 where m2: "find_winning_move cell_player1 b = Some (m2, b)"
    "winning_move_post b cell_player1 0 m2"
    using find_winning_move_spec by blast
  obtain m3 where m3: "find_best_strategic_move cell_player2 b = Some (m3, b)"
    "(0 \<le> column m3 \<and> column m3 < COLS \<and> lowest_empty b (column m3) = Some (row m3)) \<or>
     (row m3 = -1 \<and> (\<forall>c. 0 \<le> c \<and> c < COLS \<longrightarrow> lowest_empty b c = None))"
    using find_best_strategic_move_spec by blast
  from m3(2) open_col have g3: "0 \<le> column m3" "column m3 < COLS"
    "lowest_empty b (column m3) = Some (row m3)" by auto
  from lowest_empty_Some [OF g3(3)] have r3: "row m3 \<noteq> -1" by auto
  show ?thesis
  proof (cases "row m1 \<noteq> -1")
    case True
    with m1 show ?thesis by (auto simp: ai_medium_move_def winning_move_post_def)
  next
    case n1: False
    show ?thesis
    proof (cases "row m2 \<noteq> -1")
      case True
      with m1(1) n1 m2 show ?thesis by (auto simp: ai_medium_move_def winning_move_post_def)
    next
      case n2: False
      show ?thesis
      proof (cases "shd rng mod 100 < 70")
        case True
        with m1(1) n1 m2(1) n2 m3(1) g3 r3 show ?thesis
          by (auto simp: ai_medium_move_def)
      next
        case False
        obtain cp rng' where sh: "shuffle [0..<7] [3, 2, 4, 1, 5, 0, 6] (stl rng) = (cp, rng')"
          by (cases "shuffle [0..<7] [3, 2, 4, 1, 5, 0, 6] (stl rng)")
        from shuffle_set [of "[0..<7]" "[3, 2, 4, 1, 5, 0, 6]" "stl rng"] sh
        have cp: "set cp = {0, 1, 2, 3, 4, 5, 6}" by auto
        from open_col have "c \<in> set cp" unfolding cp COLS_def by auto
        with first_valid_column_None [of b cp c] open_col(3)
        obtain m4 where m4: "first_valid_column b cp = Some m4"
          by (cases "first_valid_column b cp") auto
        from first_valid_column_Some [OF m4] cp
        have g4: "0 \<le> column m4" "column m4 < COLS" "lowest_empty b (column m4) = Some (row m4)"
          by (auto simp: COLS_def)
        from m1(1) n1 m2(1) n2 m3(1) r3 False sh m4 g4 show ?thesis
          by (auto simp: ai_medium_move_def)
      qed
    qed
  qed
qed


section \<open>Minimax returns and restores the board\<close>

lemma grid_cells_iff: "(r, c) \<in> set grid_cells \<longleftrightarrow> in_grid r c"
  by (fastforce simp: grid_cells_def in_grid_def)

lemma length_filter_less:
  assumes "x \<in> set xs" "P x" "\<not> Q x" "\<And>y. Q y \<Longrightarrow> P y"
  shows "length (filter Q xs) < length (filter P xs)"
  using assms(1)
proof (induction xs)
  case Nil
  then show ?case by simp
next
  case (Cons y ys)
  have le: "length (filter Q ys) \<le> length (filter P ys)"
    by (induction ys) (auto dest: assms(4))
  show ?case
  proof (cases "y = x")
    case True
    with assms(2,3) le show ?thesis by simp
  next
    case False
    with Cons have "length (filter Q ys) < length (filter P ys)" by simp
    then show ?thesis using assms(4) [of y] by auto
  qed
qed

lemma empties_place:
  assumes "in_grid r c" "b r c = cell_empty" "q \<noteq> cell_empty"
  shows "empties (place b r c q) < empties b"
  unfolding empties_def
proof (rule length_filter_less [of "(r, c)"])
  show "(r, c) \<in> set grid_cells" using assms(1) by (simp add: grid_cells_iff)
  show "case (r, c) of (r, c) \<Rightarrow> b r c = cell_empty" using assms(2) by simp
  show "\<not> (case (r, c) of (r', c') \<Rightarrow> place b r c q r' c' = cell_empty)" using assms(3) by simp
  show "case y of (r', c') \<Rightarrow> b r' c' = cell_empty"
    if "case y of (r', c') \<Rightarrow> place b r c q r' c' = cell_empty" for y
    using that assms(3) by (cases y) (auto simp: place_apply split: if_splits)
qed

lemma place_same_value: "b r c = v \<Longrightarrow> place b r c v = b"
  by (auto simp: place_def fun_eq_iff)

lemma winner_among_total:
  "\<forall>(r, c) \<in> set cells. in_grid r c \<Longrightarrow> \<exists>w. winner_among b cells = Some w"
proof (induction cells)
  case Nil
  show ?case by (rule exI [of _ False]) simp
next
  case (Cons x cells)
  obtain r c where x: "x = (r, c)" by (cases x)
  with Cons.prems have g: "in_grid r c" by simp
  from check_functions_total(4) [OF g, of b "b r c"] obtain w
    where w: "check_winner b \<lparr>row = r, column = c\<rparr> (b r c) = Some w" by blast
  from Cons obtain w' where w': "winner_among b cells = Some w'" by auto
  show ?case
  proof (cases "b r c \<noteq> cell_empty \<and> w")
    case True
    with w x have "winner_among b (x # cells) = Some True" by simp
    then show ?thesis by blast
  next
    case False
    with w w' x have "winner_among b (x # cells) = Some w'" by auto
    then show ?thesis by blast
  qed
qed

lemma is_game_over_total: "\<exists>v. is_game_over b = Some v"
proof -
  have "\<forall>(r, c) \<in> set grid_cells. in_grid r c" by (auto simp: grid_cells_iff)
  from winner_among_total [OF this, of b] obtain w where "winner_among b grid_cells = Some w" ..
  then have "is_game_over b =
      Some (if w then True else list_all (\<lambda>c. b 0 c \<noteq> cell_empty) [0..COLS - 1])"
    by (simp add: is_game_over_def grid_cells_def)
  then show ?thesis by blast
qed

lemma get_valid_moves_iff:
  "c \<in> set (get_valid_moves b) \<longleftrightarrow> 0 \<le> c \<and> c < COLS \<and> b 0 c = cell_empty"
  by (auto simp: get_valid_moves_def)

lemma make_move_valid:
  assumes "0 \<le> c" "c < COLS" "b 0 c = cell_empty"
  shows "\<exists>r. lowest_empty b c = Some r \<and> make_move b c q = Some (r, place b r c q) \<and>
             in_grid r c \<and> b r c = cell_empty \<and> drop_piece b c q = place b r c q"
proof -
  from lowest_empty_exists [of 0 b c] assms(3) obtain r where r: "lowest_empty b c = Some r"
    by (auto simp: ROWS_def)
  from lowest_empty_in_grid [OF r assms(1,2)] lowest_empty_Some [OF r] r assms(1,2)
  show ?thesis by (simp add: make_move_def drop_piece_def)
qed

lemma max_loop_restores:
  assumes "\<forall>c \<in> set cols. 0 \<le> c \<and> c < COLS \<and> b 0 c = cell_empty"
    and "\<And>c a be. c \<in> set cols \<Longrightarrow>
           \<exists>v. recurse a be (drop_piece b c p) = Some (v, drop_piece b c p)"
  shows "\<exists>v. max_loop recurse p cols alpha beta best b = Some (v, b)"
  using assms
proof (induction cols arbitrary: alpha best)
  case Nil
  show ?case by simp
next
  case (Cons c cols)
  from Cons.prems(1) have c: "0 \<le> c" "c < COLS" "b 0 c = cell_empty" by simp_all
  from make_move_valid [of c b p] c obtain r where r: "make_move b c p = Some (r, place b r c p)"
    "in_grid r c" "b r c = cell_empty" "drop_piece b c p = place b r c p" by blast
  from Cons.prems(2) [of c alpha beta] r(4) obtain v
    where v: "recurse alpha beta (place b r c p) = Some (v, place b r c p)" by auto
  from r(2,3) have u: "undo_move (place b r c p) r c = Some b"
    by (simp add: undo_move_def set_cell_def place_undo)
  have "\<exists>v'. max_loop recurse p cols a beta be b = Some (v', b)" for a be
    using Cons.IH [of a be] Cons.prems by simp
  with r(1) v u show ?case by (auto simp: Let_def)
qed

lemma min_loop_restores:
  assumes "\<forall>c \<in> set cols. 0 \<le> c \<and> c < COLS \<and> b 0 c = cell_empty"
    and "\<And>c a be. c \<in> set cols \<Longrightarrow>
           \<exists>v. recurse a be (drop_piece b c p) = Some (v, drop_piece b c p)"
  shows "\<exists>v. min_loop recurse p cols alpha beta best b = Some (v, b)"
  using assms
proof (induction cols arbitrary: beta best)
  case Nil
  show ?case by simp
next
  case (Cons c cols)
  from Cons.prems(1) have c: "0 \<le> c" "c < COLS" "b 0 c = cell_empty" by simp_all
  from make_move_valid [of c b p] c obtain r where r: "make_move b c p = Some (r, place b r c p)"
    "in_grid r c" "b r c = cell_empty" "drop_piece b c p = place b r c p" by blast
  from Cons.prems(2) [of c alpha beta] r(4) obtain v
    where v: "recurse alpha beta (place b r c p) = Some (v, place b r c p)" by auto
  from r(2,3) have u: "undo_move (place b r c p) r c = Some b"
    by (simp add: undo_move_def set_cell_def place_undo)
  have "\<exists>v'. min_loop recurse p cols alpha be a b = Some (v', b)" for a be
    using Cons.IH [of be a] Cons.prems by simp
  with r(1) v u show ?case by (auto simp: Let_def)
qed

lemma empties_drop_piece:
  assumes "0 \<le> c" "c < COLS" "b 0 c = cell_empty"
  shows "q \<noteq> cell_empty \<Longrightarrow> empties (drop_piece b c q) < empties b"
    and "q = cell_empty \<Longrightarrow> drop_piece b c q = b"
proof -
  from make_move_valid [of c b q] assms obtain r where r: "in_grid r c" "b r c = cell_empty"
    "drop_piece b c q = place b r c q" by blast
  show "empties (drop_piece b c q) < empties b" if "q \<noteq> cell_empty"
    using empties_place [of r c b q] r that by simp
  show "drop_piece b c q = b" if "q = cell_empty"
    using r(2,3) that by (simp add: place_same_value)
qed

lemma minimax_restores_aux:
  "2 * empties b + (if m then 1 else 0) < n \<Longrightarrow> \<exists>v. minimax d alpha beta m p b = Some (v, b)"
proof (induction n arbitrary: d alpha beta m p b)
  case 0
  then show ?case by simp
next
  case (Suc n)
  let ?opp = "if p = cell_player1 then cell_player2 else cell_player1"
  have opp: "?opp \<noteq> cell_empty" by simp
  obtain over where over: "is_game_over b = Some over" using is_game_over_total by blast
  have cols: "\<forall>c \<in> set (get_valid_moves b). 0 \<le> c \<and> c < COLS \<and> b 0 c = cell_empty"
    by (simp add: get_valid_moves_iff)
  show ?case
  proof (cases "d = 0 \<or> over \<or> get_valid_moves b = []")
    case True
    with over show ?thesis by (subst minimax.simps) (auto simp: Let_def)
  next
    case False
    show ?thesis
    proof (cases m)
      case True
      have rec: "\<exists>v. minimax (d - 1) a be False p (drop_piece b c p) = Some (v, drop_piece b c p)"
        if "c \<in> set (get_valid_moves b)" for c a be
      proof (rule Suc.IH)
        from that cols have c: "0 \<le> c" "c < COLS" "b 0 c = cell_empty" by auto
        show "2 * empties (drop_piece b c p) + (if False then 1 else 0) < n"
          using empties_drop_piece [of c b p] c Suc.prems True by (cases "p = cell_empty") auto
      qed
      from max_loop_restores [of "get_valid_moves b" b "\<lambda>a be b. minimax (d - 1) a be False p b"
          p alpha beta INT_MIN] cols rec
      obtain v where "max_loop (\<lambda>a be b. minimax (d - 1) a be False p b) p (get_valid_moves b)
          alpha beta INT_MIN b = Some (v, b)" by blast
      with False True over show ?thesis by (subst minimax.simps) (auto simp: Let_def)
    next
      case m: False
      have rec: "\<exists>v. minimax (d - 1) a be True p (drop_piece b c ?opp) = Some (v, drop_piece b c ?opp)"
        if "c \<in> set (get_valid_moves b)" for c a be
      proof (rule Suc.IH)
        from that cols have c: "0 \<le> c" "c < COLS" "b 0 c = cell_empty" by auto
        show "2 * empties (drop_piece b c ?opp) + (if True then 1 else 0) < n"
          using empties_drop_piece(1) [of c b ?opp] c opp Suc.prems m by simp
      qed
      from min_loop_restores [of "get_valid_moves b" b "\<lambda>a be b. minimax (d - 1) a be True p b"
          ?opp alpha beta INT_MAX] cols rec
      obtain v where "min_loop (\<lambda>a be b. minimax (d - 1) a be True p b) ?opp (get_valid_moves b)
          alpha beta INT_MAX b = Some (v, b)" by blast
      with False m over show ?thesis by (subst minimax.simps) (auto simp: Let_def)
    qed
  qed
qed

lemma minimax_restores: "\<exists>v. minimax d alpha beta m p b = Some (v, b)"
  using minimax_restores_aux [of b m "2 * empties b + 2"] by simp

section \<open>Claims on the search routines and the medium player\<close>

text \<open>
  C5. Every search and heuristic routine returns with every cell of the board equal to
  its value before the call. \<open>find_winning_move\<close> and \<open>minimax\<close> (at every depth, alpha,
  beta, maximizing flag and player) return the board they were called on, for every
  board. \<open>count_threats\<close> is called from one place, the column loop of
  \<open>find_best_strategic_move\<close>, under the guard \<^verbatim>\<open>board[row][col] == cell_empty\<close> with
  \<^verbatim>\<open>row\<close> in 0..5 and \<^verbatim>\<open>col\<close> in 0..6: at every such call it returns the board it was
  called on, and so does \<open>find_best_strategic_move\<close>, which makes those calls, for
  every board.
\<close>

theorem search_routines_restore_board:
  "(\<exists>m. find_winning_move player b = Some (m, b)) \<and>
   (0 \<le> r \<and> r \<le> 5 \<and> 0 \<le> c \<and> c \<le> 6 \<and> b r c = cell_empty \<longrightarrow>
      (\<exists>t. count_threats b r c player = Some (t, b))) \<and>
   (\<exists>m. find_best_strategic_move player b = Some (m, b)) \<and>
   (\<exists>v. minimax depth alpha beta maximizing player b = Some (v, b))"
proof (intro conjI impI)
  show "\<exists>m. find_winning_move player b = Some (m, b)"
    using find_winning_move_spec [of player b] by blast
  show "\<exists>t. count_threats b r c player = Some (t, b)"
    if "0 \<le> r \<and> r \<le> 5 \<and> 0 \<le> c \<and> c \<le> 6 \<and> b r c = cell_empty"
    using count_threats_restores [of r c b player] that
    by (auto simp: in_grid_def ROWS_def COLS_def)
  show "\<exists>m. find_best_strategic_move player b = Some (m, b)"
    using find_best_strategic_move_spec [of player b] by blast
  show "\<exists>v. minimax depth alpha beta maximizing player b = Some (v, b)"
    by (rule minimax_restores)
qed

theorem search_routines_restore_board_witness:
  "(\<exists>m. find_winning_move cell_player2 split_row_board = Some (m, split_row_board)) \<and>
   split_row_board 5 4 = cell_empty \<and>
   (\<exists>t. count_threats split_row_board 5 4 cell_player2 = Some (t, split_row_board)) \<and>
   (\<exists>m. find_best_strategic_move cell_player2 split_row_board = Some (m, split_row_board)) \<and>
   (\<exists>v. minimax (-3) 0 0 True cell_player2 split_row_board = Some (v, split_row_board))"
proof -
  have e: "split_row_board 5 4 = cell_empty" by code_simp
  with search_routines_restore_board
    [of cell_player2 split_row_board 5 4 "-3" 0 0 True]
  show ?thesis by simp
qed

text \<open>
  The guard of the caller is what the restoration rests on: \<open>count_threats\<close> writes the
  player's piece and then \<^verbatim>\<open>cell_empty\<close> without saving the old value, so on a cell that
  holds a piece, where the program never calls it, the cell would end Empty.
\<close>

lemma count_threats_needs_empty_cell:
  "split_row_board 5 0 = cell_player1 \<and>
   map_option (\<lambda>x. snd x 5 0) (count_threats split_row_board 5 0 cell_player2) = Some cell_empty"
  by (intro conjI) code_simp+

text \<open>
  C6. On every board on which dropping a Player 2 piece in some column 0..6 completes
  four in a row, \<open>ai_medium_move\<close> returns, for every random source and without drawing
  from it, the lowest Empty cell of the first such column in ascending order, and leaves
  the board as it was.
\<close>

theorem ai_medium_move_takes_win:
  assumes "0 \<le> c" "c \<le> 6" "completes_four b cell_player2 c"
  shows "\<exists>m. ai_medium_move rng b = Some (m, rng, b) \<and>
           0 \<le> column m \<and> column m \<le> c \<and>
           lowest_empty b (column m) = Some (row m) \<and>
           completes_four b cell_player2 (column m) \<and>
           (\<forall>c'. 0 \<le> c' \<and> c' < column m \<longrightarrow> \<not> completes_four b cell_player2 c')"
proof -
  obtain m where m: "find_winning_move cell_player2 b = Some (m, b)"
    "winning_move_post b cell_player2 0 m"
    using find_winning_move_spec by blast
  have r: "row m \<noteq> -1"
  proof
    assume "row m = -1"
    with m(2) assms show False by (auto simp: winning_move_post_def COLS_def)
  qed
  with m(2) have p: "0 \<le> column m" "lowest_empty b (column m) = Some (row m)"
    "completes_four b cell_player2 (column m)"
    "\<forall>c'. 0 \<le> c' \<and> c' < column m \<longrightarrow> \<not> completes_four b cell_player2 c'"
    by (simp_all add: winning_move_post_def)
  from p(4) assms have "column m \<le> c" by (meson not_le)
  with m(1) r p show ?thesis by (simp add: ai_medium_move_def)
qed

theorem ai_medium_move_takes_win_witness:
  "(0::int) \<le> 3 \<and> (3::int) \<le> 6 \<and> completes_four medium_win_board cell_player2 3 \<and>
   (\<exists>m. ai_medium_move (sconst 0) medium_win_board = Some (m, sconst 0, medium_win_board) \<and>
      0 \<le> column m \<and> column m \<le> 3 \<and>
      lowest_empty medium_win_board (column m) = Some (row m) \<and>
      completes_four medium_win_board cell_player2 (column m))"
proof -
  have c: "completes_four medium_win_board cell_player2 3" by code_simp
  from ai_medium_move_takes_win [of 3 medium_win_board "sconst 0"] c
  show ?thesis by simp blast
qed

text \<open>
  C10. On every board with an Empty cell in some column 0..6, \<open>ai_medium_move\<close> returns,
  for every random source, a move with row in 0..5 and column in 0..6 whose cell is Empty
  and is the lowest Empty cell of its column, on the board it was called on; the game
  loop's write of the computer's piece at that move stays on the grid.
\<close>

theorem ai_medium_move_valid:
  assumes "0 \<le> r" "r \<le> 5" "0 \<le> c" "c \<le> 6" "b r c = cell_empty"
  shows "\<exists>m rng'. ai_medium_move rng b = Some (m, rng', b) \<and>
           0 \<le> row m \<and> row m \<le> 5 \<and> 0 \<le> column m \<and> column m \<le> 6 \<and>
           b (row m) (column m) = cell_empty \<and>
           (\<forall>r'. row m < r' \<and> r' \<le> 5 \<longrightarrow> b r' (column m) \<noteq> cell_empty) \<and>
           set_cell b (row m) (column m) cell_player2 \<noteq> None"
proof -
  from assms lowest_empty_exists [of r b c] have "lowest_empty b c \<noteq> None"
    by (auto simp: ROWS_def)
  with ai_medium_move_cases [of c b rng] assms obtain m rng'
    where m: "ai_medium_move rng b = Some (m, rng', b)" "0 \<le> column m" "column m < COLS"
      "lowest_empty b (column m) = Some (row m)"
    by (auto simp: COLS_def)
  from lowest_empty_Some [OF m(4)] m(2,3)
  have "0 \<le> row m" "row m \<le> 5" "column m \<le> 6" "b (row m) (column m) = cell_empty"
    "\<forall>r'. row m < r' \<and> r' \<le> 5 \<longrightarrow> b r' (column m) \<noteq> cell_empty"
    "in_grid (row m) (column m)"
    by (simp_all add: ROWS_def COLS_def in_grid_def)
  with m(1,2) show ?thesis by (simp add: set_cell_def)
qed

theorem ai_medium_move_valid_witness:
  "(0::int) \<le> 5 \<and> (5::int) \<le> 5 \<and> (0::int) \<le> 4 \<and> (4::int) \<le> 6 \<and>
   split_row_board 5 4 = cell_empty \<and>
   (\<exists>m rng'. ai_medium_move (sconst 0) split_row_board = Some (m, rng', split_row_board) \<and>
      0 \<le> row m \<and> row m \<le> 5 \<and> 0 \<le> column m \<and> column m \<le> 6 \<and>
      split_row_board (row m) (column m) = cell_empty \<and>
      set_cell split_row_board (row m) (column m) cell_player2 \<noteq> None)"
proof -
  have e: "split_row_board 5 4 = cell_empty" by code_simp
  from ai_medium_move_valid [of 5 4 split_row_board "sconst 0"] e
  show ?thesis by simp blast
qed

section \<open>The easy player\<close>

lemma ai_easy_move_unfold:
  "ai_easy_move rng b =
     (case lowest_empty b (drawn_column rng 0) of
        None \<Rightarrow> ai_easy_move (stl rng) b
      | Some r \<Rightarrow> Some (\<lparr>row = r, column = drawn_column rng 0\<rparr>, stl rng))"
  unfolding lowest_empty_def ROWS_def drawn_column_def
  by (subst ai_easy_move.simps) (simp add: Let_def cong: option.case_cong)

lemma ai_easy_move_returns:
  assumes "lowest_empty b (drawn_column rng k) = Some r"
    and "\<forall>i<k. lowest_empty b (drawn_column rng i) = None"
  shows "ai_easy_move rng b = Some (\<lparr>row = r, column = drawn_column rng k\<rparr>, sdrop (Suc k) rng)"
  using assms
proof (induction k arbitrary: rng)
  case 0
  then show ?case by (subst ai_easy_move_unfold) simp
next
  case (Suc k)
  from Suc.prems(2) have n: "lowest_empty b (drawn_column rng 0) = None" by blast
  have s: "drawn_column (stl rng) i = drawn_column rng (Suc i)" for i
    by (simp add: drawn_column_def)
  from Suc.prems have "ai_easy_move (stl rng) b =
      Some (\<lparr>row = r, column = drawn_column (stl rng) k\<rparr>, sdrop (Suc k) (stl rng))"
    by (intro Suc.IH) (auto simp: s)
  with n show ?case by (subst ai_easy_move_unfold) (simp add: s)
qed

lemma ai_easy_move_returned:
  assumes "ai_easy_move rng b = Some y"
  shows "\<exists>k. returned_after b rng y k"
proof (rule ai_easy_move.raw_induct [where P = "\<lambda>rng b y. \<exists>k. returned_after b rng y k", OF _ assms])
  fix f :: "nat stream \<Rightarrow> board \<Rightarrow> (GameMove \<times> nat stream) option" and rng b y
  assume IH: "\<And>rng b y. f rng b = Some y \<Longrightarrow> \<exists>k. returned_after b rng y k"
    and body: "(let col = int (shd rng) mod 7; rng = stl rng
                in case first_empty_from b col 5 of
                     None \<Rightarrow> f rng b
                   | Some r \<Rightarrow> Some (\<lparr>row = r, column = col\<rparr>, rng)) = Some y"
  have s: "drawn_column (stl rng) i = drawn_column rng (Suc i)" for i
    by (simp add: drawn_column_def)
  have fe: "first_empty_from b (int (shd rng) mod 7) 5 = lowest_empty b (drawn_column rng 0)"
    by (simp add: lowest_empty_def ROWS_def drawn_column_def)
  show "\<exists>k. returned_after b rng y k"
  proof (cases "lowest_empty b (drawn_column rng 0)")
    case None
    with body fe have "f (stl rng) b = Some y" by (simp add: Let_def)
    from IH [OF this] obtain k where k: "returned_after b (stl rng) y k" ..
    have "\<forall>i<Suc k. lowest_empty b (drawn_column rng i) = None"
    proof (intro allI impI)
      fix i assume "i < Suc k"
      with None k show "lowest_empty b (drawn_column rng i) = None"
        by (cases i) (auto simp: returned_after_def s)
    qed
    with k have "returned_after b rng y (Suc k)" by (simp add: returned_after_def s)
    then show ?thesis ..
  next
    case (Some r)
    with body fe have "y = (\<lparr>row = r, column = drawn_column rng 0\<rparr>, stl rng)"
      by (simp add: Let_def drawn_column_def)
    with Some have "returned_after b rng y 0" by (simp add: returned_after_def)
    then show ?thesis ..
  qed
qed

lemma ai_easy_move_never_returns:
  assumes "\<forall>k. lowest_empty b (drawn_column rng k) = None"
  shows "ai_easy_move rng b = None"
proof (cases "ai_easy_move rng b")
  case (Some y)
  from ai_easy_move_returned [OF Some] assms show ?thesis by (auto simp: returned_after_def)
qed simp


lemma ai_easy_move_only_open_column:
  assumes "ai_easy_move rng b = Some (m, rng')"
    and "\<forall>c. c \<noteq> c0 \<longrightarrow> lowest_empty b c = None"
  shows "column m = c0"
proof -
  from ai_easy_move_returned [OF assms(1)] obtain k
    where "lowest_empty b (drawn_column rng k) = Some (row m)" "column m = drawn_column rng k"
    by (auto simp: returned_after_def)
  with assms(2) show ?thesis by (cases "column m = c0") auto
qed

text \<open>
  C7, as the code has it. \<open>ai_easy_move\<close> draws a column with \<^verbatim>\<open>rand() % 7\<close> and calls
  itself again while the drawn column is full. It returns a move exactly when some draw
  names a column with an Empty cell: the move is then the lowest Empty cell of the first
  such column drawn, and one more result of \<^verbatim>\<open>rand()\<close> has been used than full columns
  were drawn.
\<close>

theorem ai_easy_move_first_open_draw:
  "ai_easy_move rng b = Some (m, rng') \<longleftrightarrow>
     (\<exists>k. (\<forall>i<k. lowest_empty b (drawn_column rng i) = None) \<and>
          lowest_empty b (drawn_column rng k) = Some (row m) \<and>
          column m = drawn_column rng k \<and> rng' = sdrop (Suc k) rng)"
proof
  assume "ai_easy_move rng b = Some (m, rng')"
  from ai_easy_move_returned [OF this] show "\<exists>k. (\<forall>i<k. lowest_empty b (drawn_column rng i) = None) \<and>
          lowest_empty b (drawn_column rng k) = Some (row m) \<and>
          column m = drawn_column rng k \<and> rng' = sdrop (Suc k) rng"
    by (simp add: returned_after_def)
next
  assume "\<exists>k. (\<forall>i<k. lowest_empty b (drawn_column rng i) = None) \<and>
          lowest_empty b (drawn_column rng k) = Some (row m) \<and>
          column m = drawn_column rng k \<and> rng' = sdrop (Suc k) rng"
  then obtain k where k: "\<forall>i<k. lowest_empty b (drawn_column rng i) = None"
    "lowest_empty b (drawn_column rng k) = Some (row m)"
    "column m = drawn_column rng k" "rng' = sdrop (Suc k) rng" by blast
  from ai_easy_move_returns [OF k(2,1)] k(3,4) show "ai_easy_move rng b = Some (m, rng')"
    by simp
qed

theorem ai_easy_move_first_open_draw_witness:
  "ai_easy_move (0 ## sconst 1) column0_full_board = Some (\<lparr>row = 4, column = 1\<rparr>, sconst 1)"
proof -
  have 0: "lowest_empty column0_full_board 0 = None" by code_simp
  have 1: "lowest_empty column0_full_board 1 = Some 4" by code_simp
  have "\<exists>k. (\<forall>i<k. lowest_empty column0_full_board (drawn_column (0 ## sconst 1) i) = None) \<and>
          lowest_empty column0_full_board (drawn_column (0 ## sconst 1) k) =
            Some (row \<lparr>row = 4, column = 1\<rparr>) \<and>
          column \<lparr>row = 4, column = 1\<rparr> = drawn_column (0 ## sconst 1) k \<and>
          sconst 1 = sdrop (Suc k) (0 ## sconst 1)"
    using 0 1 by (intro exI [of _ 1]) (simp add: drawn_column_def)
  then show ?thesis
    using ai_easy_move_first_open_draw [of "0 ## sconst 1" column0_full_board
      "\<lparr>row = 4, column = 1\<rparr>" "sconst 1"] by simp
qed

text \<open>
  The claim as stated fails: with column 0 full and a random source whose every result
  is a multiple of 7, \<open>ai_easy_move\<close> selects the full column at every draw and never
  returns.
\<close>

theorem ai_easy_move_retries_forever:
  "ai_easy_move (sconst 0) column0_full_board = None"
proof (rule ai_easy_move_never_returns)
  have "lowest_empty column0_full_board 0 = None" by code_simp
  then show "\<forall>k. lowest_empty column0_full_board (drawn_column (sconst 0) k) = None"
    by (simp add: drawn_column_def)
qed

section \<open>The game session and the gate before the win check\<close>

lemma grid_cells_distinct: "distinct grid_cells"
  by code_simp

lemma input_player_move_Some:
  "input_player_move keyed b = Some (m, keyed') \<Longrightarrow>
     0 \<le> column m \<and> column m < COLS \<and> lowest_empty b (column m) = Some (row m)"
proof (induction keyed b rule: input_player_move.induct)
  case (1 keyed b)
  from "1.prems" obtain v ks where v: "input_player_int_range 1 7 keyed = Some (v, ks)"
    by (auto simp: input_player_move.simps [of keyed b] split: option.splits)
  have rng: "1 \<le> v \<and> v \<le> 7" using v
    by (induction keyed) (auto split: if_splits)
  show ?case
  proof (cases "first_empty_from b (v - 1) (ROWS - 1)")
    case None
    with v "1.prems" have "input_player_move ks b = Some (m, keyed')"
      by (simp add: input_player_move.simps [of keyed b])
    from "1.IH" [OF v refl refl None this] show ?thesis .
  next
    case (Some r)
    with v "1.prems" have "m = \<lparr>row = r, column = v - 1\<rparr>"
      by (simp add: input_player_move.simps [of keyed b])
    with Some rng show ?thesis by (simp add: lowest_empty_def COLS_def)
  qed
qed

lemma length_filter_insert:
  assumes "distinct xs" "x \<in> set xs" "\<not> P x" "\<And>y. Q y \<longleftrightarrow> (y = x \<or> P y)"
  shows "length (filter Q xs) = Suc (length (filter P xs))"
  using assms(1,2)
proof (induction xs)
  case Nil
  then show ?case by simp
next
  case (Cons y ys)
  show ?case
  proof (cases "y = x")
    case True
    with Cons.prems have "x \<notin> set ys" by simp
    then have "filter Q ys = filter P ys" by (intro filter_cong) (auto simp: assms(4))
    moreover have "Q y" "\<not> P y" using True assms(3,4) by auto
    ultimately show ?thesis by simp
  next
    case False
    with Cons have "length (filter Q ys) = Suc (length (filter P ys))" by simp
    moreover have "Q y = P y" using False assms(4) [of y] by simp
    ultimately show ?thesis by simp
  qed
qed

lemma pieces_place:
  assumes "in_grid r c" "b r c = cell_empty" "p \<noteq> cell_empty"
  shows "pieces (place b r c p) p = Suc (pieces b p)"
    and "q \<noteq> p \<Longrightarrow> q \<noteq> cell_empty \<Longrightarrow> pieces (place b r c p) q = pieces b q"
proof -
  show "pieces (place b r c p) p = Suc (pieces b p)"
    unfolding pieces_def
  proof (rule length_filter_insert [of _ "(r, c)"])
    show "distinct grid_cells" by (rule grid_cells_distinct)
    show "(r, c) \<in> set grid_cells" using assms(1) by (simp add: grid_cells_iff)
    show "\<not> (case (r, c) of (r, c) \<Rightarrow> b r c = p)" using assms(2,3) by simp
    show "(case y of (r', c') \<Rightarrow> place b r c p r' c' = p) \<longleftrightarrow>
          (y = (r, c) \<or> (case y of (r, c) \<Rightarrow> b r c = p))" for y
      by (cases y) (auto simp: place_apply)
  qed
  show "pieces (place b r c p) q = pieces b q" if "q \<noteq> p" "q \<noteq> cell_empty"
    unfolding pieces_def
  proof (rule arg_cong [where f = length], rule filter_cong [OF refl])
    fix y assume "y \<in> set grid_cells"
    show "(case y of (r', c') \<Rightarrow> place b r c p r' c' = q) = (case y of (r, c) \<Rightarrow> b r c = q)"
      using that assms(2) by (cases y) (auto simp: place_apply)
  qed
qed

lemma four_on_axis_pieces:
  assumes "four_on_axis b p r c dr dc" "(dr, dc) \<noteq> (0, 0)"
  shows "4 \<le> pieces b p"
proof -
  from assms(1) obtain j where "\<forall>i\<in>{0..3}. holds b p (r + (i - j) * dr) (c + (i - j) * dc)"
    by (auto simp: four_on_axis_def)
  then have w: "holds b p (r + (i - j) * dr) (c + (i - j) * dc)" if "0 \<le> i" "i \<le> 3" for i
    using that by simp
  let ?w = "map (\<lambda>i. (r + (i - j) * dr, c + (i - j) * dc)) [0, 1, 2, 3]"
  have "inj (\<lambda>i. (r + (i - j) * dr, c + (i - j) * dc))"
  proof (rule injI)
    fix x y assume "(r + (x - j) * dr, c + (x - j) * dc) = (r + (y - j) * dr, c + (y - j) * dc)"
    then have "(x - j) * dr = (y - j) * dr" "(x - j) * dc = (y - j) * dc" by simp_all
    with assms(2) have "x - j = y - j" by (cases "dr = 0") simp_all
    then show "x = y" by simp
  qed
  then have "inj_on (\<lambda>i. (r + (i - j) * dr, c + (i - j) * dc)) (set [0, 1, 2, 3])"
    by (rule inj_on_subset) simp
  moreover have "distinct [0, 1, 2, 3::int]" by simp
  ultimately have d: "distinct ?w" by (simp only: distinct_map)
  have "x \<in> set (filter (\<lambda>(r, c). b r c = p) grid_cells)" if "x \<in> set ?w" for x
  proof -
    from that obtain i where i: "i \<in> set [0, 1, 2, 3::int]"
      "x = (r + (i - j) * dr, c + (i - j) * dc)"
      unfolding set_map by blast
    from i(1) have "0 \<le> i" "i \<le> 3" by auto
    from w [OF this] i(2) show ?thesis by (simp add: holds_def grid_cells_iff)
  qed
  then have "set ?w \<subseteq> set (filter (\<lambda>(r, c). b r c = p) grid_cells)" by blast
  then have "card (set ?w) \<le> card (set (filter (\<lambda>(r, c). b r c = p) grid_cells))"
    by (intro card_mono) simp_all
  also have "\<dots> \<le> length (filter (\<lambda>(r, c). b r c = p) grid_cells)" by (rule card_length)
  finally have "card (set ?w) \<le> pieces b p" by (simp add: pieces_def)
  moreover from d have "card (set ?w) = 4" by (simp add: distinct_card)
  ultimately show ?thesis by simp
qed

lemma four_through_pieces:
  assumes "four_through b p r c"
  shows "4 \<le> pieces b p"
proof -
  from assms consider "four_on_axis b p r c 1 0" | "four_on_axis b p r c 0 1"
    | "four_on_axis b p r c (-1) 1" | "four_on_axis b p r c 1 1"
    unfolding four_through_def by blast
  then show ?thesis
  proof cases
    case 1 then show ?thesis by (rule four_on_axis_pieces) simp
  next
    case 2 then show ?thesis by (rule four_on_axis_pieces) simp
  next
    case 3 then show ?thesis by (rule four_on_axis_pieces) simp
  next
    case 4 then show ?thesis by (rule four_on_axis_pieces) simp
  qed
qed

lemma pieces_board_init: "pieces board_init cell_player1 = 0" "pieces board_init cell_player2 = 0"
  by (simp_all add: pieces_def board_init_def)

lemma pvp_ply_Running:
  assumes "pvp_ply keyed g = Some (out, g', keyed')" "out \<noteq> Draw"
  shows "\<exists>r c. in_grid r c \<and> the_board g r c = cell_empty \<and>
           the_board g' = place (the_board g) r c (if turn g = 0 then cell_player1 else cell_player2) \<and>
           count_moves g' = count_moves g + 1 \<and> turn g' = (if turn g = 0 then 1 else 0) \<and>
           (out \<noteq> Running \<longrightarrow> 6 < count_moves g')"
proof -
  from assms have nf: "count_moves g \<noteq> BOARD_FULL"
    by (auto simp: pvp_ply_def split: if_splits)
  with assms obtain m ks where m: "input_player_move keyed (the_board g) = Some (m, ks)"
    by (auto simp: pvp_ply_def Let_def split: Option.bind_splits)
  from input_player_move_Some [OF m]
  have c: "0 \<le> column m" "column m < COLS" "lowest_empty (the_board g) (column m) = Some (row m)"
    by simp_all
  from lowest_empty_in_grid [OF c(3,1,2)] have g: "in_grid (row m) (column m)" .
  from lowest_empty_Some [OF c(3)] have e: "the_board g (row m) (column m) = cell_empty" by simp
  define player where "player = (if turn g = 0 then cell_player1 else cell_player2)"
  define g1 where "g1 = \<lparr>the_board = place (the_board g) (row m) (column m) player,
    count_moves = count_moves g + 1, turn = (if turn g = 0 then 1 else 0)\<rparr>"
  have eq: "pvp_ply keyed g =
      (if count_moves g + 1 > 6 then
         (case check_winner (the_board g1) m player of
            None \<Rightarrow> None
          | Some w \<Rightarrow> if w then Some (Win player, g1, ks) else Some (Running, g1, ks))
       else Some (Running, g1, ks))"
    using nf m g
    by (simp add: pvp_ply_def set_cell_def Let_def player_def g1_def split: option.splits)
  from assms(1) have g': "g' = g1" and o: "out \<noteq> Running \<longrightarrow> 6 < count_moves g + 1"
    unfolding eq by (simp_all split: if_splits option.splits)
  have "the_board g' = place (the_board g) (row m) (column m)
        (if turn g = 0 then cell_player1 else cell_player2)"
    "count_moves g' = count_moves g + 1" "turn g' = (if turn g = 0 then 1 else 0)"
    "out \<noteq> Running \<longrightarrow> 6 < count_moves g'"
    using o by (simp_all add: g' g1_def player_def)
  with g e show ?thesis by blast
qed

lemma session_inv_step:
  assumes "session_inv g" "pvp_ply keyed g = Some (out, g', keyed')" "out \<noteq> Draw"
  shows "session_inv g'"
proof -
  from pvp_ply_Running [OF assms(2,3)] obtain r c where s: "in_grid r c"
    "the_board g r c = cell_empty"
    "the_board g' = place (the_board g) r c (if turn g = 0 then cell_player1 else cell_player2)"
    "count_moves g' = count_moves g + 1" "turn g' = (if turn g = 0 then 1 else 0)" by blast
  from assms(1) have i: "0 \<le> count_moves g" "turn g = count_moves g mod 2"
    "int (pieces (the_board g) cell_player1) = (count_moves g + 1) div 2"
    "int (pieces (the_board g) cell_player2) = count_moves g div 2"
    by (simp_all add: session_inv_def)
  show ?thesis
  proof (cases "turn g = 0")
    case True
    with i(2) have ev: "count_moves g mod 2 = 0" by simp
    from True s(3) pieces_place(1) [of r c "the_board g" cell_player1]
      pieces_place(2) [of r c "the_board g" cell_player1 cell_player2] s(1,2)
    have "pieces (the_board g') cell_player1 = Suc (pieces (the_board g) cell_player1)"
      "pieces (the_board g') cell_player2 = pieces (the_board g) cell_player2" by simp_all
    moreover from ev have "(count_moves g + 1 + 1) div 2 = (count_moves g + 1) div 2 + 1"
      "(count_moves g + 1) div 2 = count_moves g div 2" "(count_moves g + 1) mod 2 = 1"
      by presburger+
    ultimately show ?thesis using i s(4,5) True by (simp add: session_inv_def)
  next
    case False
    with i(2) have od: "count_moves g mod 2 = 1" by presburger
    from False s(3) pieces_place(1) [of r c "the_board g" cell_player2]
      pieces_place(2) [of r c "the_board g" cell_player2 cell_player1] s(1,2)
    have "pieces (the_board g') cell_player2 = Suc (pieces (the_board g) cell_player2)"
      "pieces (the_board g') cell_player1 = pieces (the_board g) cell_player1" by simp_all
    moreover from od have "(count_moves g + 1 + 1) div 2 = (count_moves g + 1) div 2"
      "(count_moves g + 1) div 2 = count_moves g div 2 + 1" "(count_moves g + 1) mod 2 = 0"
      by presburger+
    ultimately show ?thesis using i s(4,5) False by (simp add: session_inv_def)
  qed
qed

lemma reachable_inv: "reachable g \<Longrightarrow> session_inv g"
proof (induction rule: reachable.induct)
  case start
  show ?case by (simp add: session_inv_def pieces_board_init)
next
  case (ply g keyed g' keyed')
  from session_inv_step [OF ply.IH ply.hyps(2)] show ?case by simp
qed

lemma no_four_before_seven:
  assumes "session_inv g" "count_moves g \<le> 6" "q \<noteq> cell_empty"
  shows "\<not> four_through (the_board g) q r c"
proof
  assume "four_through (the_board g) q r c"
  from four_through_pieces [OF this] have "4 \<le> pieces (the_board g) q" .
  moreover from assms(1,2) have "pieces (the_board g) cell_player1 \<le> 3"
    "pieces (the_board g) cell_player2 \<le> 3"
    by (auto simp: session_inv_def)
  ultimately show False using assms(3) by (cases q) auto
qed


text \<open>
  C8. In a session of \<^verbatim>\<open>game_init_pvp\<close> that starts on the empty board, a ply ends in a
  win only once the move count exceeds 6; and while the move count after a ply is at most
  6, the ply leaves the game running, no player has four in a row through any cell, and
  the detector would return false on every occupied cell of the grid: the gate loses no
  win.
\<close>

theorem win_check_gate_loses_no_win:
  assumes "reachable g" "pvp_ply keyed g = Some (out, g', keyed')"
  shows "(out = Win p \<longrightarrow> 6 < count_moves g') \<and>
         (count_moves g' \<le> 6 \<longrightarrow>
            out = Running \<and>
            (\<forall>q r c. q \<noteq> cell_empty \<longrightarrow> \<not> four_through (the_board g') q r c) \<and>
            (\<forall>r c. in_grid r c \<and> the_board g' r c \<noteq> cell_empty \<longrightarrow>
               check_winner (the_board g') \<lparr>row = r, column = c\<rparr> (the_board g' r c) = Some False))"
proof (intro conjI impI)
  assume "out = Win p"
  with pvp_ply_Running [OF assms(2)] show "6 < count_moves g'" by auto
next
  assume le: "count_moves g' \<le> 6"
  from reachable_inv [OF assms(1)] have i: "session_inv g" .
  have i': "session_inv g'"
  proof (cases "out = Draw")
    case True
    with assms(2) have "g' = g" by (auto simp: pvp_ply_def Let_def split: if_splits Option.bind_splits)
    with i show ?thesis by simp
  next
    case False
    from session_inv_step [OF i assms(2) False] show ?thesis .
  qed
  show "out = Running"
  proof (cases out)
    case Draw
    with assms(2) have "g' = g" "count_moves g = BOARD_FULL"
      by (auto simp: pvp_ply_def Let_def split: if_splits Option.bind_splits)
    with le show ?thesis by (simp add: BOARD_FULL_def)
  next
    case (Win x)
    with pvp_ply_Running [OF assms(2)] le show ?thesis by auto
  qed simp
  show nf: "\<forall>q r c. q \<noteq> cell_empty \<longrightarrow> \<not> four_through (the_board g') q r c"
    using no_four_before_seven [OF i' le] by blast
  show "\<forall>r c. in_grid r c \<and> the_board g' r c \<noteq> cell_empty \<longrightarrow>
               check_winner (the_board g') \<lparr>row = r, column = c\<rparr> (the_board g' r c) = Some False"
  proof (intro allI impI)
    fix r c assume a: "in_grid r c \<and> the_board g' r c \<noteq> cell_empty"
    then have "check_winner (the_board g') \<lparr>row = r, column = c\<rparr> (the_board g' r c) =
        Some (four_through (the_board g') (the_board g' r c) r c)"
      by (intro check_winner_correct) simp_all
    with nf a show "check_winner (the_board g') \<lparr>row = r, column = c\<rparr> (the_board g' r c) = Some False"
      by simp
  qed
qed

theorem win_check_gate_loses_no_win_witness:
  "reachable \<lparr>the_board = board_init, count_moves = 0, turn = 0\<rparr> \<and>
   pvp_ply [4] \<lparr>the_board = board_init, count_moves = 0, turn = 0\<rparr> =
     Some (Running, \<lparr>the_board = place board_init 5 3 cell_player1, count_moves = 1, turn = 1\<rparr>, []) \<and>
   \<not> four_through (place board_init 5 3 cell_player1) cell_player1 5 3 \<and>
   check_winner (place board_init 5 3 cell_player1) \<lparr>row = 5, column = 3\<rparr> cell_player1 = Some False"
proof -
  let ?g = "\<lparr>the_board = board_init, count_moves = 0, turn = 0\<rparr>"
  let ?g' = "\<lparr>the_board = place board_init 5 3 cell_player1, count_moves = 1, turn = 1\<rparr>"
  have r: "reachable ?g" by (rule reachable.start)
  have f: "first_empty_from board_init 3 5 = Some 5"
    by (simp add: first_empty_from.simps [of _ _ 5] board_init_def)
  have p: "pvp_ply [4] ?g = Some (Running, ?g', [])"
    by (simp add: pvp_ply_def input_player_move.simps [of "[4]"] f BOARD_FULL_def ROWS_def
        set_cell_def in_grid_def COLS_def)
  from win_check_gate_loses_no_win [OF r p, of cell_player1]
  have n: "\<forall>q r c. q \<noteq> cell_empty \<longrightarrow> \<not> four_through (place board_init 5 3 cell_player1) q r c"
    and c: "\<forall>r c. in_grid r c \<and> place board_init 5 3 cell_player1 r c \<noteq> cell_empty \<longrightarrow>
      check_winner (place board_init 5 3 cell_player1) \<lparr>row = r, column = c\<rparr>
        (place board_init 5 3 cell_player1 r c) = Some False"
    by simp_all
  from n have "\<not> four_through (place board_init 5 3 cell_player1) cell_player1 5 3" by simp
  moreover from c [rule_format, of 5 3]
  have "check_winner (place board_init 5 3 cell_player1) \<lparr>row = 5, column = 3\<rparr> cell_player1 = Some False"
    by (simp add: in_grid_def ROWS_def COLS_def)
  ultimately show ?thesis using r p by simp
qed

section \<open>Alpha-beta pruning against exhaustive minimax\<close>

lemma window_agrees_refl: "window_agrees alpha beta x x"
  by (simp add: window_agrees_def)

lemma max_loop_value_agrees:
  assumes "alpha = max alpha0 best" "alpha < beta"
    and "\<forall>c \<in> set done. x c \<le> best"
    and "alpha0 < best \<longrightarrow> best \<in> x ` set done"
    and "done @ cols \<noteq> []"
    and "\<forall>c \<in> set cols. \<forall>a. alpha0 \<le> a \<and> a < beta \<longrightarrow> window_agrees a beta (x c) (f c a beta)"
  shows "window_agrees alpha0 beta (Max (x ` set (done @ cols))) (max_loop_value f cols alpha beta best)"
  using assms
proof (induction cols arbitrary: "done" alpha best)
  case Nil
  let ?X = "Max (x ` set done)"
  from Nil.prems(5) have ne: "x ` set done \<noteq> {}" by simp
  have fin: "finite (x ` set done)" by simp
  from Nil.prems(3) have le: "?X \<le> best" using ne fin by (simp add: Max_le_iff)
  have "?X = best" if "alpha0 < best"
  proof -
    from that Nil.prems(4) have "best \<in> x ` set done" by simp
    then have "best \<le> ?X" using fin by (rule Max_ge [rotated])
    with le show ?thesis by simp
  qed
  moreover from Nil.prems(1,2) have "best < beta" by simp
  ultimately show ?case using le by (simp add: window_agrees_def)
next
  case (Cons c cols)
  let ?r = "f c alpha beta"
  let ?best' = "if ?r > best then ?r else best"
  let ?alpha' = "if alpha > ?r then alpha else ?r"
  let ?X = "Max (x ` set (done @ c # cols))"
  have fin: "finite (x ` set (done @ c # cols))" by simp
  from Cons.prems(1) have a0: "alpha0 \<le> alpha" and ba: "best \<le> alpha" by simp_all
  from Cons.prems(6) a0 Cons.prems(2) have ag: "window_agrees alpha beta (x c) ?r" by simp
  show ?case
  proof (cases "beta \<le> ?alpha'")
    case True
    with Cons.prems(2) have rb: "beta \<le> ?r" by (simp split: if_splits)
    with ba Cons.prems(2) have b': "?best' = ?r" by simp
    from ag rb have "?r \<le> x c" by (simp add: window_agrees_def)
    also have "x c \<le> ?X" using fin by (intro Max_ge) simp_all
    finally have "?r \<le> ?X" .
    moreover from rb Cons.prems(2) a0 have "alpha0 < ?r" by simp
    ultimately have "window_agrees alpha0 beta ?X ?r" using rb by (simp add: window_agrees_def)
    with True b' show ?thesis by (simp add: Let_def)
  next
    case False
    then have ab': "?alpha' < beta" by simp
    then have rb: "?r < beta" by (simp split: if_splits)
    from ag rb have xr: "x c \<le> ?r" by (auto simp: window_agrees_def)
    have 1: "?alpha' = max alpha0 ?best'" using Cons.prems(1) by (auto simp: max_def)
    have 3: "\<forall>c' \<in> set (done @ [c]). x c' \<le> ?best'"
      using Cons.prems(3) xr by auto
    have 4: "alpha0 < ?best' \<longrightarrow> ?best' \<in> x ` set (done @ [c])"
    proof
      assume l: "alpha0 < ?best'"
      show "?best' \<in> x ` set (done @ [c])"
      proof (cases "?r > best")
        case True
        with l Cons.prems(1) have "alpha < ?r" by (simp add: max_def split: if_splits)
        with ag rb have "x c = ?r" by (simp add: window_agrees_def)
        with True show ?thesis by simp
      next
        case False
        with l Cons.prems(4) show ?thesis by auto
      qed
    qed
    have 6: "\<forall>c' \<in> set cols. \<forall>a. alpha0 \<le> a \<and> a < beta \<longrightarrow>
        window_agrees a beta (x c') (f c' a beta)"
      using Cons.prems(6) by simp
    from Cons.IH [of ?alpha' ?best' "done @ [c]", OF 1 ab' 3 4 _ 6]
    have "window_agrees alpha0 beta (Max (x ` set ((done @ [c]) @ cols)))
        (max_loop_value f cols ?alpha' beta ?best')" by simp
    with False show ?thesis by (simp add: Let_def)
  qed
qed

lemma min_loop_value_agrees:
  assumes "beta = min beta0 best" "alpha < beta"
    and "\<forall>c \<in> set done. best \<le> x c"
    and "best < beta0 \<longrightarrow> best \<in> x ` set done"
    and "done @ cols \<noteq> []"
    and "\<forall>c \<in> set cols. \<forall>be. alpha < be \<and> be \<le> beta0 \<longrightarrow> window_agrees alpha be (x c) (f c alpha be)"
  shows "window_agrees alpha beta0 (Min (x ` set (done @ cols))) (min_loop_value f cols alpha beta best)"
  using assms
proof (induction cols arbitrary: "done" beta best)
  case Nil
  let ?X = "Min (x ` set done)"
  from Nil.prems(5) have ne: "x ` set done \<noteq> {}" by simp
  have fin: "finite (x ` set done)" by simp
  from Nil.prems(3) have le: "best \<le> ?X" using ne fin by (simp add: Min_ge_iff)
  have "?X = best" if "best < beta0"
  proof -
    from that Nil.prems(4) have "best \<in> x ` set done" by simp
    then have "?X \<le> best" using fin by (rule Min_le [rotated])
    with le show ?thesis by simp
  qed
  moreover from Nil.prems(1,2) have "alpha < best" by simp
  ultimately show ?case using le by (simp add: window_agrees_def)
next
  case (Cons c cols)
  let ?r = "f c alpha beta"
  let ?best' = "if ?r < best then ?r else best"
  let ?beta' = "if beta < ?r then beta else ?r"
  let ?X = "Min (x ` set (done @ c # cols))"
  have fin: "finite (x ` set (done @ c # cols))" by simp
  from Cons.prems(1) have b0: "beta \<le> beta0" and bb: "beta \<le> best" by simp_all
  from Cons.prems(6) b0 Cons.prems(2) have ag: "window_agrees alpha beta (x c) ?r" by simp
  show ?case
  proof (cases "?beta' \<le> alpha")
    case True
    with Cons.prems(2) have ra: "?r \<le> alpha" by (simp split: if_splits)
    with bb Cons.prems(2) have b': "?best' = ?r" by simp
    have "?X \<le> x c" using fin by (intro Min_le) simp_all
    also from ag ra have "x c \<le> ?r" by (simp add: window_agrees_def)
    finally have "?X \<le> ?r" .
    moreover from ra Cons.prems(2) b0 have "?r < beta0" by simp
    ultimately have "window_agrees alpha beta0 ?X ?r" using ra by (simp add: window_agrees_def)
    with True b' show ?thesis by (simp add: Let_def)
  next
    case False
    then have ab': "alpha < ?beta'" by simp
    then have ra: "alpha < ?r" by (simp split: if_splits)
    from ag ra have xr: "?r \<le> x c" by (auto simp: window_agrees_def)
    have 1: "?beta' = min beta0 ?best'" using Cons.prems(1) by (auto simp: min_def)
    have 3: "\<forall>c' \<in> set (done @ [c]). ?best' \<le> x c'"
      using Cons.prems(3) xr by auto
    have 4: "?best' < beta0 \<longrightarrow> ?best' \<in> x ` set (done @ [c])"
    proof
      assume l: "?best' < beta0"
      show "?best' \<in> x ` set (done @ [c])"
      proof (cases "?r < best")
        case True
        with l Cons.prems(1) have "?r < beta" by (simp add: min_def split: if_splits)
        with ag ra have "x c = ?r" by (simp add: window_agrees_def)
        with True show ?thesis by simp
      next
        case False
        with l Cons.prems(4) show ?thesis by auto
      qed
    qed
    have 6: "\<forall>c' \<in> set cols. \<forall>be. alpha < be \<and> be \<le> beta0 \<longrightarrow>
        window_agrees alpha be (x c') (f c' alpha be)"
      using Cons.prems(6) by simp
    from Cons.IH [of ?beta' ?best' "done @ [c]", OF 1 ab' 3 4 _ 6]
    have "window_agrees alpha beta0 (Min (x ` set ((done @ [c]) @ cols)))
        (min_loop_value f cols alpha ?beta' ?best')" by simp
    with False show ?thesis by (simp add: Let_def)
  qed
qed

lemma winner_among_spec:
  "\<forall>(r, c) \<in> set cells. in_grid r c \<Longrightarrow>
     winner_among b cells =
       Some (list_ex (\<lambda>(r, c). b r c \<noteq> cell_empty \<and> four_through b (b r c) r c) cells)"
proof (induction cells)
  case Nil
  show ?case by simp
next
  case (Cons x cells)
  obtain r c where x: "x = (r, c)" by (cases x)
  with Cons.prems have g: "in_grid r c" by simp
  have w: "check_winner b \<lparr>row = r, column = c\<rparr> (b r c) = Some (four_through b (b r c) r c)"
    by (rule check_winner_correct [OF g]) simp
  from Cons have IH: "winner_among b cells =
      Some (list_ex (\<lambda>(r, c). b r c \<noteq> cell_empty \<and> four_through b (b r c) r c) cells)" by simp
  show ?case by (simp add: x w IH)
qed

lemma is_game_over_finished: "is_game_over b = Some (finished b)"
proof -
  have "\<forall>(r, c) \<in> set grid_cells. in_grid r c" by (auto simp: grid_cells_iff)
  from winner_among_spec [OF this, of b] show ?thesis
    by (simp add: is_game_over_def finished_def grid_cells_def)
qed

lemma max_loop_value_eq:
  assumes "\<forall>c \<in> set cols. 0 \<le> c \<and> c < COLS \<and> b 0 c = cell_empty"
    and "\<And>c a be. c \<in> set cols \<Longrightarrow>
           recurse a be (drop_piece b c p) = Some (f c a be, drop_piece b c p)"
  shows "max_loop recurse p cols alpha beta best b =
           Some (max_loop_value f cols alpha beta best, b)"
  using assms
proof (induction cols arbitrary: alpha best)
  case Nil
  show ?case by simp
next
  case (Cons c cols)
  from Cons.prems(1) have c: "0 \<le> c" "c < COLS" "b 0 c = cell_empty" by simp_all
  from make_move_valid [of c b p] c obtain r where r: "make_move b c p = Some (r, place b r c p)"
    "in_grid r c" "b r c = cell_empty" "drop_piece b c p = place b r c p" by blast
  from Cons.prems(2) [of c alpha beta] r(4)
  have v: "recurse alpha beta (place b r c p) = Some (f c alpha beta, place b r c p)" by simp
  from r(2,3) have u: "undo_move (place b r c p) r c = Some b"
    by (simp add: undo_move_def set_cell_def place_undo)
  have IH: "max_loop recurse p cols a beta be b = Some (max_loop_value f cols a beta be, b)" for a be
    using Cons.IH [of a be] Cons.prems by simp
  show ?case by (simp add: r(1) v u IH Let_def)
qed

lemma min_loop_value_eq:
  assumes "\<forall>c \<in> set cols. 0 \<le> c \<and> c < COLS \<and> b 0 c = cell_empty"
    and "\<And>c a be. c \<in> set cols \<Longrightarrow>
           recurse a be (drop_piece b c p) = Some (f c a be, drop_piece b c p)"
  shows "min_loop recurse p cols alpha beta best b =
           Some (min_loop_value f cols alpha beta best, b)"
  using assms
proof (induction cols arbitrary: beta best)
  case Nil
  show ?case by simp
next
  case (Cons c cols)
  from Cons.prems(1) have c: "0 \<le> c" "c < COLS" "b 0 c = cell_empty" by simp_all
  from make_move_valid [of c b p] c obtain r where r: "make_move b c p = Some (r, place b r c p)"
    "in_grid r c" "b r c = cell_empty" "drop_piece b c p = place b r c p" by blast
  from Cons.prems(2) [of c alpha beta] r(4)
  have v: "recurse alpha beta (place b r c p) = Some (f c alpha beta, place b r c p)" by simp
  from r(2,3) have u: "undo_move (place b r c p) r c = Some b"
    by (simp add: undo_move_def set_cell_def place_undo)
  have IH: "min_loop recurse p cols alpha be a b = Some (min_loop_value f cols alpha be a, b)" for a be
    using Cons.IH [of be a] Cons.prems by simp
  show ?case by (simp add: r(1) v u IH Let_def)
qed

lemma minimax_value: "minimax d alpha beta m p b = Some (minimax_value d alpha beta m p b, b)"
  using minimax_restores [of d alpha beta m p b] by (auto simp: minimax_value_def)

lemma minimax_agrees:
  "INT_MIN \<le> alpha \<Longrightarrow> alpha < beta \<Longrightarrow> beta \<le> INT_MAX \<Longrightarrow>
     window_agrees alpha beta (exhaustive d m p b) (minimax_value (int d) alpha beta m p b)"
proof (induction d arbitrary: alpha beta m b)
  case 0
  have "minimax 0 alpha beta m p b = Some (evaluate_position b p, b)"
    by (subst minimax.simps) simp
  then have "minimax_value (int 0) alpha beta m p b = evaluate_position b p"
    by (simp add: minimax_value_def)
  then show ?case by (simp add: window_agrees_refl)
next
  case (Suc d)
  let ?opp = "if p = cell_player1 then cell_player2 else cell_player1"
  let ?cols = "get_valid_moves b"
  have cols: "\<forall>c \<in> set ?cols. 0 \<le> c \<and> c < COLS \<and> b 0 c = cell_empty"
    by (simp add: get_valid_moves_iff)
  have d: "int (Suc d) \<noteq> 0" "int (Suc d) - 1 = int d" by simp_all
  show ?case
  proof (cases "finished b \<or> ?cols = []")
    case True
    then have "minimax (int (Suc d)) alpha beta m p b = Some (exhaustive (Suc d) m p b, b)"
      by (subst minimax.simps) (auto simp: d is_game_over_finished Let_def)
    then have "minimax_value (int (Suc d)) alpha beta m p b = exhaustive (Suc d) m p b"
      by (simp add: minimax_value_def)
    then show ?thesis by (simp add: window_agrees_refl)
  next
    case False
    show ?thesis
    proof (cases m)
      case True
      let ?f = "\<lambda>c a be. minimax_value (int d) a be False p (drop_piece b c p)"
      let ?x = "\<lambda>c. exhaustive d False p (drop_piece b c p)"
      have "max_loop (\<lambda>a be b. minimax (int d) a be False p b) p ?cols alpha beta INT_MIN b =
          Some (max_loop_value ?f ?cols alpha beta INT_MIN, b)"
        by (rule max_loop_value_eq [where f = ?f]) (use cols in \<open>simp_all add: minimax_value\<close>)
      with False True have "minimax (int (Suc d)) alpha beta m p b =
          Some (max_loop_value ?f ?cols alpha beta INT_MIN, b)"
        by (subst minimax.simps) (simp add: d is_game_over_finished Let_def)
      then have v: "minimax_value (int (Suc d)) alpha beta m p b =
          max_loop_value ?f ?cols alpha beta INT_MIN"
        by (simp add: minimax_value_def)
      have ch: "\<forall>c \<in> set ?cols. \<forall>a. alpha \<le> a \<and> a < beta \<longrightarrow>
          window_agrees a beta (?x c) (?f c a beta)"
        using Suc.IH Suc.prems by auto
      have "window_agrees alpha beta (Max (?x ` set ([] @ ?cols)))
          (max_loop_value ?f ?cols alpha beta INT_MIN)"
        by (rule max_loop_value_agrees) (use Suc.prems False ch in auto)
      moreover from False True have "exhaustive (Suc d) m p b = Max (?x ` set ?cols)" by simp
      ultimately show ?thesis by (simp only: v append_Nil)
    next
      case m: False
      let ?f = "\<lambda>c a be. minimax_value (int d) a be True p (drop_piece b c ?opp)"
      let ?x = "\<lambda>c. exhaustive d True p (drop_piece b c ?opp)"
      have "min_loop (\<lambda>a be b. minimax (int d) a be True p b) ?opp ?cols alpha beta INT_MAX b =
          Some (min_loop_value ?f ?cols alpha beta INT_MAX, b)"
        by (rule min_loop_value_eq [where f = ?f]) (use cols in \<open>simp_all add: minimax_value\<close>)
      with False m have "minimax (int (Suc d)) alpha beta m p b =
          Some (min_loop_value ?f ?cols alpha beta INT_MAX, b)"
        by (subst minimax.simps) (simp add: d is_game_over_finished Let_def)
      then have v: "minimax_value (int (Suc d)) alpha beta m p b =
          min_loop_value ?f ?cols alpha beta INT_MAX"
        by (simp add: minimax_value_def)
      have ch: "\<forall>c \<in> set ?cols. \<forall>be. alpha < be \<and> be \<le> beta \<longrightarrow>
          window_agrees alpha be (?x c) (?f c alpha be)"
        using Suc.IH Suc.prems by auto
      have "window_agrees alpha beta (Min (?x ` set ([] @ ?cols)))
          (min_loop_value ?f ?cols alpha beta INT_MAX)"
        by (rule min_loop_value_agrees) (use Suc.prems False ch in auto)
      moreover from False m have "exhaustive (Suc d) m p b = Min (?x ` set ?cols)" by simp
      ultimately show ?thesis by (simp only: v append_Nil)
    qed
  qed
qed

lemma score_window_bounds:
  "- 100 \<le> score_window p opp cells 0 \<and> score_window p opp cells 0 \<le> 100"
  by (simp add: score_window_def Let_def split: prod.splits)

lemma sum_list_bounds:
  fixes f :: "'a \<Rightarrow> int"
  assumes "\<And>x. x \<in> set xs \<Longrightarrow> lo \<le> f x \<and> f x \<le> hi"
  shows "int (length xs) * lo \<le> sum_list (map f xs) \<and> sum_list (map f xs) \<le> int (length xs) * hi"
  using assms
proof (induction xs)
  case Nil
  show ?case by simp
next
  case (Cons x xs)
  from Cons.prems [of x] have "lo \<le> f x" "f x \<le> hi" by simp_all
  moreover from Cons have "int (length xs) * lo \<le> sum_list (map f xs)"
    "sum_list (map f xs) \<le> int (length xs) * hi" by simp_all
  ultimately show ?case by (simp add: algebra_simps)
qed

lemma window_rows_bounds:
  "- (int (length xs) * (int (length ys) * 100))
     \<le> sum_list (map (\<lambda>x. sum_list (map (\<lambda>y. score_window p opp (f x y) 0) ys)) xs) \<and>
   sum_list (map (\<lambda>x. sum_list (map (\<lambda>y. score_window p opp (f x y) 0) ys)) xs)
     \<le> int (length xs) * (int (length ys) * 100)"
proof -
  have inner: "int (length ys) * (- 100) \<le> sum_list (map (\<lambda>y. score_window p opp (f x y) 0) ys) \<and>
      sum_list (map (\<lambda>y. score_window p opp (f x y) 0) ys) \<le> int (length ys) * 100" for x
    by (rule sum_list_bounds) (rule score_window_bounds)
  from sum_list_bounds [of xs "int (length ys) * (- 100)"
      "\<lambda>x. sum_list (map (\<lambda>y. score_window p opp (f x y) 0) ys)" "int (length ys) * 100"] inner
  show ?thesis by simp
qed

lemma pieces_in_bounds: "0 \<le> pieces_in b p w \<and> pieces_in b p w \<le> int (length w)"
  by (simp add: pieces_in_def)

lemma evaluate_position_bounds:
  "- 6900 \<le> evaluate_position b p \<and> evaluate_position b p \<le> 6918"
proof -
  let ?opp = "if p = cell_player1 then cell_player2 else cell_player1"
  have n: "ROWS - 1 = 5" "COLS - 4 = 3" "ROWS - 4 = 2" "COLS - 1 = 6"
    by (simp_all add: ROWS_def COLS_def)
  define s1 where "s1 = sum_list (map (\<lambda>r. sum_list (map (\<lambda>c.
    score_window p ?opp (map (\<lambda>i. b r (c + i)) [0..3]) 0) [0..3])) [0..5])"
  define s2 where "s2 = sum_list (map (\<lambda>c. sum_list (map (\<lambda>r.
    score_window p ?opp (map (\<lambda>i. b (r + i) c) [0..3]) 0) [0..2])) [0..6])"
  define s3 where "s3 = sum_list (map (\<lambda>r. sum_list (map (\<lambda>c.
    score_window p ?opp (map (\<lambda>i. b (r + i) (c + i)) [0..3]) 0) [0..3])) [0..2])"
  define s4 where "s4 = sum_list (map (\<lambda>r. sum_list (map (\<lambda>c.
    score_window p ?opp (map (\<lambda>i. b (r - i) (c + i)) [0..3]) 0) [0..3])) [3..5])"
  define ce where "ce = pieces_in b p (map (\<lambda>r. (r, 3)) [0..5])"
  have e: "evaluate_position b p = s1 + s2 + s3 + s4 + 3 * ce"
    unfolding evaluate_position_def Let_def n fold_fold_score_window fold_center
      s1_def s2_def s3_def s4_def ce_def
    by simp
  have len: "length [0..5::int] = 6" "length [0..3::int] = 4" "length [0..2::int] = 3"
    "length [0..6::int] = 7" "length [3..5::int] = 3"
    by (simp_all add: upto_lists)
  have "- 2400 \<le> s1 \<and> s1 \<le> 2400"
    unfolding s1_def
    using window_rows_bounds [of "[0..5]" "[0..3]" p ?opp "\<lambda>r c. map (\<lambda>i. b r (c + i)) [0..3]"]
    by (simp add: len)
  moreover have "- 2100 \<le> s2 \<and> s2 \<le> 2100"
    unfolding s2_def
    using window_rows_bounds [of "[0..6]" "[0..2]" p ?opp "\<lambda>c r. map (\<lambda>i. b (r + i) c) [0..3]"]
    by (simp add: len)
  moreover have "- 1200 \<le> s3 \<and> s3 \<le> 1200"
    unfolding s3_def
    using window_rows_bounds [of "[0..2]" "[0..3]" p ?opp "\<lambda>r c. map (\<lambda>i. b (r + i) (c + i)) [0..3]"]
    by (simp add: len)
  moreover have "- 1200 \<le> s4 \<and> s4 \<le> 1200"
    unfolding s4_def
    using window_rows_bounds [of "[3..5]" "[0..3]" p ?opp "\<lambda>r c. map (\<lambda>i. b (r - i) (c + i)) [0..3]"]
    by (simp add: len)
  moreover have "0 \<le> ce \<and> ce \<le> 6"
    unfolding ce_def using pieces_in_bounds [of b p "map (\<lambda>r. (r, 3)) [0..5]"] by (simp add: len)
  ultimately show ?thesis unfolding e by simp
qed

lemma exhaustive_bounds:
  "- 6900 \<le> exhaustive d m p b \<and> exhaustive d m p b \<le> 6918"
proof (induction d arbitrary: m b)
  case 0
  show ?case using evaluate_position_bounds [of b p] by simp
next
  case (Suc d)
  let ?opp = "if p = cell_player1 then cell_player2 else cell_player1"
  let ?cols = "get_valid_moves b"
  show ?case
  proof (cases "finished b \<or> ?cols = []")
    case True
    then show ?thesis using evaluate_position_bounds [of b p] by auto
  next
    case False
    then have ne: "?cols \<noteq> []" by simp
    show ?thesis
    proof (cases m)
      case True
      let ?S = "set (map (\<lambda>col. exhaustive d False p (drop_piece b col p)) ?cols)"
      have "Max ?S \<in> ?S" using ne by (intro Max_in) simp_all
      then obtain c where "Max ?S = exhaustive d False p (drop_piece b c p)" by auto
      with Suc.IH [of False "drop_piece b c p"] False True show ?thesis by simp
    next
      case m: False
      let ?S = "set (map (\<lambda>col. exhaustive d True p (drop_piece b col ?opp)) ?cols)"
      have "Min ?S \<in> ?S" using ne by (intro Min_in) simp_all
      then obtain c where "Min ?S = exhaustive d True p (drop_piece b c ?opp)" by auto
      with Suc.IH [of True "drop_piece b c ?opp"] False m show ?thesis by simp
    qed
  qed
qed

lemma minimax_exact:
  "minimax (int d) INT_MIN INT_MAX m p b = Some (exhaustive d m p b, b)"
proof -
  have "window_agrees INT_MIN INT_MAX (exhaustive d m p b)
      (minimax_value (int d) INT_MIN INT_MAX m p b)"
    by (rule minimax_agrees) (simp_all add: INT_MIN_def INT_MAX_def)
  with exhaustive_bounds [of d m p b]
  have "minimax_value (int d) INT_MIN INT_MAX m p b = exhaustive d m p b"
    unfolding window_agrees_def INT_MIN_def INT_MAX_def by linarith
  with minimax_value [of "int d" INT_MIN INT_MAX m p b] show ?thesis by simp
qed

lemma pick_best_first_max:
  "pick_best x cols bs bc =
     (if \<exists>c \<in> set cols. bs < x c
      then hd (filter (\<lambda>c. x c = Max (x ` set cols)) cols)
      else bc)"
proof (induction cols arbitrary: bs bc)
  case Nil
  show ?case by simp
next
  case (Cons c cols)
  let ?M = "Max (x ` set (c # cols))"
  have fin: "finite (x ` set cols)" by simp
  show ?case
  proof (cases "bs < x c")
    case True
    show ?thesis
    proof (cases "\<exists>c' \<in> set cols. x c < x c'")
      case ex: True
      then obtain c' where c': "c' \<in> set cols" "x c < x c'" by blast
      then have ne: "x ` set cols \<noteq> {}" by auto
      from c' have "x c < Max (x ` set cols)" using fin ne by (auto simp: Max_gr_iff)
      then have M: "?M = Max (x ` set cols)" "x c \<noteq> ?M" using ne by (simp_all add: max_def)
      from True ex M Cons.IH [of "x c" c] show ?thesis by auto
    next
      case no: False
      then have "\<forall>y \<in> x ` set (c # cols). y \<le> x c" by auto
      then have "?M = x c" by (intro Max_eqI) auto
      with True no Cons.IH [of "x c" c] show ?thesis by auto
    qed
  next
    case False
    show ?thesis
    proof (cases "\<exists>c' \<in> set cols. bs < x c'")
      case ex: True
      then obtain c' where c': "c' \<in> set cols" "bs < x c'" by blast
      then have ne: "x ` set cols \<noteq> {}" by auto
      from c' have "bs < Max (x ` set cols)" using fin ne by (auto simp: Max_gr_iff)
      with False have "x c < Max (x ` set cols)" by simp
      then have M: "?M = Max (x ` set cols)" "x c \<noteq> ?M" using ne by (simp_all add: max_def)
      from False ex M Cons.IH [of bs bc] show ?thesis by auto
    next
      case no: False
      with False Cons.IH [of bs bc] show ?thesis by auto
    qed
  qed
qed

lemma hard_search_pick_best:
  assumes "\<forall>c \<in> set cols. 0 \<le> c \<and> c < COLS \<and> b 0 c = cell_empty"
  shows "hard_search cols bs bc b =
    Some (pick_best (\<lambda>c. exhaustive 4 False cell_player2 (drop_piece b c cell_player2)) cols bs bc, b)"
  using assms
proof (induction cols arbitrary: bs bc)
  case Nil
  show ?case by simp
next
  case (Cons c cols)
  from Cons.prems have c: "0 \<le> c" "c < COLS" "b 0 c = cell_empty" by simp_all
  from make_move_valid [of c b cell_player2] c obtain r
    where r: "make_move b c cell_player2 = Some (r, place b r c cell_player2)"
      "in_grid r c" "b r c = cell_empty" "drop_piece b c cell_player2 = place b r c cell_player2"
    by blast
  have v: "minimax (SEARCH_DEPTH - 1) INT_MIN INT_MAX False cell_player2 (place b r c cell_player2)
      = Some (exhaustive 4 False cell_player2 (place b r c cell_player2), place b r c cell_player2)"
    using minimax_exact [of 4 False cell_player2 "place b r c cell_player2"]
    by (simp add: SEARCH_DEPTH_def)
  from r(2,3) have u: "undo_move (place b r c cell_player2) r c = Some b"
    by (simp add: undo_move_def set_cell_def place_undo)
  have IH: "hard_search cols s k b =
      Some (pick_best (\<lambda>c. exhaustive 4 False cell_player2 (drop_piece b c cell_player2)) cols s k, b)"
    for s k using Cons.IH [of s k] Cons.prems by simp
  show ?case by (simp add: r(1) v u IH r(4))
qed

lemma hard_search_exhaustive:
  "hard_search (get_valid_moves b) INT_MIN 3 b = Some (exhaustive_choice b, b)"
proof -
  let ?x = "\<lambda>c. exhaustive 4 False cell_player2 (drop_piece b c cell_player2)"
  let ?cols = "get_valid_moves b"
  have cols: "\<forall>c \<in> set ?cols. 0 \<le> c \<and> c < COLS \<and> b 0 c = cell_empty"
    by (simp add: get_valid_moves_iff)
  have gt: "INT_MIN < ?x c" for c
    using exhaustive_bounds [of 4 False cell_player2 "drop_piece b c cell_player2"]
    by (simp add: INT_MIN_def)
  have "pick_best ?x ?cols INT_MIN 3 = exhaustive_choice b"
  proof (cases "?cols = []")
    case True
    then show ?thesis by (simp add: exhaustive_choice_def)
  next
    case False
    then have "\<exists>c \<in> set ?cols. INT_MIN < ?x c" using gt by (cases ?cols) auto
    with False show ?thesis
      by (simp add: pick_best_first_max exhaustive_choice_def SEARCH_DEPTH_def Let_def)
  qed
  with hard_search_pick_best [of "get_valid_moves b" b INT_MIN 3] cols show ?thesis by simp
qed


text \<open>
  C2. For every board and every random source, \<open>ai_hard_move\<close> returns what it would
  return with exhaustive minimax in the place of the pruned search: the search over the
  valid columns, each scored by \<open>minimax\<close> with the window from \<open>INT_MIN\<close> to \<open>INT_MAX\<close>,
  selects the first valid column in ascending order whose exhaustive minimax value at
  the same depth is the largest; and at every depth, for either side to move, \<open>minimax\<close>
  with that window returns the exhaustive value and the board unchanged.
\<close>

theorem hard_ai_pruning_keeps_choice:
  "ai_hard_move rng b = ai_hard_move_exhaustive rng b \<and>
   hard_search (get_valid_moves b) INT_MIN 3 b = Some (exhaustive_choice b, b) \<and>
   minimax (int depth) INT_MIN INT_MAX maximizing player b =
     Some (exhaustive depth maximizing player b, b)"
proof (intro conjI)
  show "ai_hard_move rng b = ai_hard_move_exhaustive rng b"
    unfolding ai_hard_move_def ai_hard_move_exhaustive_def
    by (simp add: hard_search_exhaustive Let_def cong: if_cong)
  show "hard_search (get_valid_moves b) INT_MIN 3 b = Some (exhaustive_choice b, b)"
    by (rule hard_search_exhaustive)
  show "minimax (int depth) INT_MIN INT_MAX maximizing player b =
     Some (exhaustive depth maximizing player b, b)"
    by (rule minimax_exact)
qed

theorem hard_ai_pruning_keeps_choice_witness:
  "ai_hard_move (sconst 0) split_row_board = ai_hard_move_exhaustive (sconst 0) split_row_board \<and>
   hard_search (get_valid_moves split_row_board) INT_MIN 3 split_row_board =
     Some (exhaustive_choice split_row_board, split_row_board) \<and>
   minimax 4 INT_MIN INT_MAX False cell_player2 split_row_board =
     Some (exhaustive 4 False cell_player2 split_row_board, split_row_board)"
  using hard_ai_pruning_keeps_choice [of "sconst 0" split_row_board 4 False cell_player2]
  by simp

end
